theory Spec2Isabelle
  imports Main "HOL-Library.Char_ord" "HOL-Library.List_Lexorder"
begin

section \<open>apihandler.go: operation descriptors\<close>

subsection \<open>Data\<close>

text \<open>
  \<open>Format\<close> is an \<open>interface{}\<close> in the source: nil (\<open>None\<close>) or a value, of a
  type that is a parameter here. The description field of a parameter is \<open>Desc\<close> in the
  source, a name the operation descriptor uses too, so it is \<open>ParamDesc\<close> here.
\<close>

record 'f Param =
  Name :: string
  In :: string
  Required :: bool
  Format :: "'f option"
  ParamDesc :: string

text \<open>
  What \<open>reflect\<close> and \<open>runtime\<close> see of a dispatchable value: a value of kind
  \<open>Func\<close>, with the name \<open>runtime.FuncForPC(v.Pointer()).Name()\<close> gives (the empty
  name for a nil function), or a value of another kind, with its type's \<open>String()\<close>.
\<close>

datatype callback = FuncValue string | OtherValue string

text \<open>
  The struct \<open>ApiHandler\<close>. The field \<open>id\<close> is \<open>id'\<close> here and the method \<open>Id\<close> is
  \<open>Id'\<close>. The mutex is left out: the functions below are the sequential behaviour of
  one call. The slices \<open>Types\<close>, \<open>methods\<close> and \<open>Params\<close> are the lists of their
  elements.
\<close>

record 'f ApiHandler =
  Desc :: string
  Types :: "string list"
  methods :: "string list"
  Params :: "'f Param list"
  Handler :: callback
  id' :: string
  suffix :: string
  inited :: bool

subsection \<open>initParamsAndSuffix\<close>

text \<open>
  The loop of \<open>initParamsAndSuffix\<close>, with its index \<open>i\<close> and the bound \<open>count\<close>
  that is read once before the loop. An index outside the slice is a runtime panic,
  the value \<open>None\<close>.
\<close>

function initParamsAndSuffix_loop ::
  "nat \<Rightarrow> nat \<Rightarrow> 'f Param list \<Rightarrow> string \<Rightarrow> ('f Param list \<times> string) option" where
  "initParamsAndSuffix_loop i count ps sfx =
     (if i < count then
        (if i < length ps then
           (if In (ps ! i) = ''path''
            then initParamsAndSuffix_loop (i + 1) count
                   (ps[i := (ps ! i)\<lparr>Required := True\<rparr>])
                   (sfx @ ''/:'' @ Name (ps ! i))
            else initParamsAndSuffix_loop (i + 1) count ps sfx)
         else None)
      else Some (ps, sfx))"
  by pat_completeness auto
termination
  by (relation "measure (\<lambda>(i, count, ps, sfx). count - i)") auto

declare initParamsAndSuffix_loop.simps [simp del]

definition initParamsAndSuffix :: "'f ApiHandler \<Rightarrow> 'f ApiHandler option" where
  "initParamsAndSuffix a =
     (case initParamsAndSuffix_loop 0 (length (Params a)) (Params a) [] of
        None \<Rightarrow> None
      | Some (ps, sfx) \<Rightarrow> Some (a\<lparr>Params := ps, suffix := sfx\<rparr>))"

text \<open>The claim's words: what a parameter list contributes and how it is changed.\<close>

definition path_suffix :: "'f Param list \<Rightarrow> string" where
  "path_suffix ps = concat (map (\<lambda>p. ''/:'' @ Name p) (filter (\<lambda>p. In p = ''path'') ps))"

definition force_required :: "'f Param \<Rightarrow> 'f Param" where
  "force_required p = (if In p = ''path'' then p\<lparr>Required := True\<rparr> else p)"

subsection \<open>initTypes\<close>

text \<open>
  Modelled from the spec: the constants \<open>CONNECT\<close> ... \<open>TRACE\<close> are declared in
  another file of package \<open>lessgo\<close>. The spec calls them the full standard method
  set; they are the standard method names.
\<close>

definition CONNECT :: string where "CONNECT = ''CONNECT''"
definition DELETE :: string where "DELETE = ''DELETE''"
definition GET :: string where "GET = ''GET''"
definition HEAD :: string where "HEAD = ''HEAD''"
definition OPTIONS :: string where "OPTIONS = ''OPTIONS''"
definition PATCH :: string where "PATCH = ''PATCH''"
definition POST :: string where "POST = ''POST''"
definition PUT :: string where "PUT = ''PUT''"
definition TRACE :: string where "TRACE = ''TRACE''"

text \<open>
  The loop of \<open>initTypes\<close>. The function \<open>GetMethodFromType\<close> is declared in another
  file of the package and is a parameter. In the branch that drops \<open>Types[i]\<close> the source
  decrements \<open>count\<close> and \<open>i\<close> and continues, and the loop's own increment restores
  \<open>i\<close>. Strings are compared byte by byte, as Go compares them; \<open>sort.Strings\<close> is
  \<open>sort\<close> in that order.
\<close>

function initTypes_loop ::
  "(string \<Rightarrow> string) \<Rightarrow> nat \<Rightarrow> nat \<Rightarrow> string list \<Rightarrow> string list \<Rightarrow>
   (string list \<times> string list) option" where
  "initTypes_loop GetMethodFromType i count ts ms =
     (if i < count then
        (if i < length ts then
           (if 0 < i \<and> ts ! (i - 1) = ts ! i
            then initTypes_loop GetMethodFromType i (count - 1)
                   (take i ts @ drop (i + 1) ts) ms
            else initTypes_loop GetMethodFromType (i + 1) count ts
                   (ms @ [GetMethodFromType (ts ! i)]))
         else None)
      else Some (ts, ms))"
  by pat_completeness auto
termination
  by (relation "measure (\<lambda>(G, i, count, ts, ms). count - i)") auto

declare initTypes_loop.simps [simp del]

text \<open>\<open>count\<close> is read before the default is put in place, as in the source.\<close>

definition initTypes :: "(string \<Rightarrow> string) \<Rightarrow> 'f ApiHandler \<Rightarrow> 'f ApiHandler option" where
  "initTypes GetMethodFromType a =
     (let count = length (Types a);
          ts = (if count = 0
                then [CONNECT, DELETE, GET, HEAD, OPTIONS, PATCH, POST, PUT, TRACE]
                else Types a)
      in case initTypes_loop GetMethodFromType 0 count (sort ts) (methods a) of
           None \<Rightarrow> None
         | Some (ts', ms) \<Rightarrow> Some (a\<lparr>Types := ts', methods := ms\<rparr>))"

subsection \<open>initId\<close>

text \<open>The loop \<open>for _, m := range ... { add += "[" + m + "]" }\<close>.\<close>

fun add_brackets :: "string \<Rightarrow> string list \<Rightarrow> string" where
  "add_brackets add [] = add"
| "add_brackets add (m # ms) = add_brackets (add @ ''['' @ m @ '']'') ms"

definition initId :: "'f ApiHandler \<Rightarrow> 'f ApiHandler" where
  "initId a =
     (let add = add_brackets (''['' @ suffix a @ '']['' @ Desc a @ '']'') (Types a)
      in case Handler a of
           FuncValue name \<Rightarrow> a\<lparr>id' := name @ add\<rparr>
         | OtherValue t \<Rightarrow> a\<lparr>id' := t @ add\<rparr>)"

text \<open>The claim's words: the symbolic identity of a callback.\<close>

fun symbolic_identity :: "callback \<Rightarrow> string" where
  "symbolic_identity (FuncValue name) = name"
| "symbolic_identity (OtherValue t) = t"

subsection \<open>The registry\<close>

text \<open>
  A \<open>*ApiHandler\<close> is an address; \<open>objects\<close> holds the struct each address points to
  and \<open>allocated\<close> is the number of addresses in use, so that a new object is placed
  at address \<open>allocated\<close>. A nil pointer is \<open>None\<close>. \<open>apiHandlerMap\<close> is the global map
  and \<open>apiHandlers\<close> the global list \<open>DefLessgo.apiHandlers\<close>.
\<close>

type_synonym addr = nat

record 'f registry =
  objects :: "addr \<Rightarrow> 'f ApiHandler"
  allocated :: nat
  apiHandlerMap :: "string \<rightharpoonup> addr"
  apiHandlers :: "addr list"

definition Id' :: "'f registry \<Rightarrow> addr \<Rightarrow> string" where
  "Id' s a = id' (objects s a)"

definition getApiHandler :: "'f registry \<Rightarrow> string \<Rightarrow> addr option" where
  "getApiHandler s i = apiHandlerMap s i"

text \<open>
  The loop of \<open>setApiHandler\<close> over the list, with its index \<open>i\<close>: at the first
  element with a greater id the list is rebuilt with \<open>vh\<close> at \<open>i\<close>; after the
  loop \<open>vh\<close> is appended.
\<close>

function setApiHandler_loop :: "'f registry \<Rightarrow> addr \<Rightarrow> nat \<Rightarrow> addr list" where
  "setApiHandler_loop s vh i =
     (if i < length (apiHandlers s) then
        (if Id' s vh < Id' s (apiHandlers s ! i)
         then take i (apiHandlers s) @ [vh] @ drop i (apiHandlers s)
         else setApiHandler_loop s vh (i + 1))
      else apiHandlers s @ [vh])"
  by pat_completeness auto
termination
  by (relation "measure (\<lambda>(s, vh, i). length (apiHandlers s) - i)") auto

declare setApiHandler_loop.simps [simp del]

definition setApiHandler :: "addr \<Rightarrow> 'f registry \<Rightarrow> 'f registry" where
  "setApiHandler vh s =
     (let s' = s\<lparr>apiHandlerMap := (apiHandlerMap s)(Id' s vh \<mapsto> vh)\<rparr>
      in s'\<lparr>apiHandlers := setApiHandler_loop s' vh 0\<rparr>)"

text \<open>
  \<open>init\<close> on the object at address \<open>a\<close>. It returns the pointer the source returns
  and the new state, or \<open>None\<close> for a panic.
\<close>

definition init ::
  "(string \<Rightarrow> string) \<Rightarrow> addr \<Rightarrow> 'f registry \<Rightarrow> (addr option \<times> 'f registry) option" where
  "init GetMethodFromType a s =
     (if inited (objects s a) then Some (getApiHandler s (Id' s a), s)
      else case initTypes GetMethodFromType (objects s a) of
          None \<Rightarrow> None
        | Some a1 \<Rightarrow>
           (case initParamsAndSuffix a1 of
              None \<Rightarrow> None
            | Some a2 \<Rightarrow>
               (let a3 = (initId a2)\<lparr>inited := True\<rparr>;
                    s' = s\<lparr>objects := (objects s)(a := a3)\<rparr>
                in case getApiHandler s' (Id' s' a) of
                     Some h \<Rightarrow> Some (Some h, s')
                   | None \<Rightarrow> Some (Some a, setApiHandler a s'))))"

text \<open>
  \<open>Reg\<close> has a value receiver: the call copies the struct, and \<open>init\<close> works on the
  copy, a new object.
\<close>

definition Reg ::
  "(string \<Rightarrow> string) \<Rightarrow> 'f ApiHandler \<Rightarrow> 'f registry \<Rightarrow> (addr option \<times> 'f registry) option" where
  "Reg GetMethodFromType a s =
     init GetMethodFromType (allocated s)
       (s\<lparr>objects := (objects s)(allocated s := a), allocated := Suc (allocated s)\<rparr>)"

subsection \<open>Concurrent calls of Reg\<close>

text \<open>
  Goroutines in \<open>Reg\<close> touch the shared map and list only inside the sections of
  \<open>apiHandlerLock\<close>: the read in \<open>getApiHandler\<close> and the write in \<open>setApiHandler\<close>.
  Everything else works on the copy the call has made, and the mutex of an
  \<open>ApiHandler\<close> is the copy's own. A call is therefore two atomic steps: the copy
  and its initialisation up to the lookup, and then, when the lookup found nothing,
  \<open>setApiHandler\<close>. \<open>Reg_lookup\<close> is the first step of \<open>Reg\<close>, with the same text as
  \<open>init\<close> up to the lookup.
\<close>

datatype 'f reg_call =
    Calling "'f ApiHandler"
  | Storing addr
  | Returned "addr option"
  | Panicked

definition Reg_lookup ::
  "(string \<Rightarrow> string) \<Rightarrow> 'f ApiHandler \<Rightarrow> 'f registry \<Rightarrow> 'f reg_call \<times> 'f registry" where
  "Reg_lookup GetMethodFromType a0 s0 =
     (let a = allocated s0;
          s = s0\<lparr>objects := (objects s0)(a := a0), allocated := Suc a\<rparr>
      in if inited (objects s a) then (Returned (getApiHandler s (Id' s a)), s)
         else case initTypes GetMethodFromType (objects s a) of
             None \<Rightarrow> (Panicked, s)
           | Some a1 \<Rightarrow>
              (case initParamsAndSuffix a1 of
                 None \<Rightarrow> (Panicked, s)
               | Some a2 \<Rightarrow>
                  (let a3 = (initId a2)\<lparr>inited := True\<rparr>;
                       s' = s\<lparr>objects := (objects s)(a := a3)\<rparr>
                   in case getApiHandler s' (Id' s' a) of
                        Some h \<Rightarrow> (Returned (Some h), s')
                      | None \<Rightarrow> (Storing a, s'))))"

definition reg_step ::
  "(string \<Rightarrow> string) \<Rightarrow> 'f reg_call \<Rightarrow> 'f registry \<Rightarrow> 'f reg_call \<times> 'f registry" where
  "reg_step GetMethodFromType c s =
     (case c of
        Calling a \<Rightarrow> Reg_lookup GetMethodFromType a s
      | Storing a \<Rightarrow> (Returned (Some a), setApiHandler a s)
      | Returned r \<Rightarrow> (Returned r, s)
      | Panicked \<Rightarrow> (Panicked, s))"

text \<open>
  A schedule names, step by step, the call that takes its next atomic step.
\<close>

fun run_schedule ::
  "(string \<Rightarrow> string) \<Rightarrow> nat list \<Rightarrow> 'f reg_call list \<Rightarrow> 'f registry \<Rightarrow>
   'f reg_call list \<times> 'f registry" where
  "run_schedule GetMethodFromType [] cs s = (cs, s)"
| "run_schedule GetMethodFromType (i # sched) cs s =
     (if i < length cs
      then (case reg_step GetMethodFromType (cs ! i) s of
              (c', s') \<Rightarrow> run_schedule GetMethodFromType sched (cs[i := c']) s')
      else run_schedule GetMethodFromType sched cs s)"


section \<open>apihandler.go: virtual handlers\<close>

subsection \<open>Go's strings and path packages\<close>

text \<open>
  The functions of Go's standard library that \<open>creatPrefix\<close> calls, by their
  documentation. \<open>strings.Index\<close> is the index of the first instance of the
  substring, \<open>None\<close> for -1. \<open>strings.Split\<close> cuts at each instance of a non-empty
  separator, from the left; the empty separator, which the program never passes, is
  left out.
\<close>

fun strings_Index :: "string \<Rightarrow> string \<Rightarrow> nat option" where
  "strings_Index [] substr = (if substr = [] then Some 0 else None)"
| "strings_Index (c # cs) substr =
     (if take (length substr) (c # cs) = substr then Some 0
      else map_option Suc (strings_Index cs substr))"

function (sequential) strings_Split :: "string \<Rightarrow> string \<Rightarrow> string list" where
  "strings_Split s (c # cs) =
     (case strings_Index s (c # cs) of
        None \<Rightarrow> [s]
      | Some m \<Rightarrow> take m s # strings_Split (drop (m + length (c # cs)) s) (c # cs))"
| "strings_Split s [] = undefined"
  by pat_completeness auto
termination
proof (relation "measure (\<lambda>(s, sep). length s)")
  show "wf (measure (\<lambda>(s, sep). length s))" by simp
next
  fix s :: string and c cs m
  assume "strings_Index s (c # cs) = Some m"
  then have "s \<noteq> []" by (cases s) simp_all
  then show "((drop (m + length (c # cs)) s, c # cs), (s, c # cs)) \<in> measure (\<lambda>(s, sep). length s)"
    by simp
qed

declare strings_Split.simps [simp del]

text \<open>\<open>strings.Join\<close> puts the separator between the elements.\<close>

fun strings_Join :: "string list \<Rightarrow> string \<Rightarrow> string" where
  "strings_Join [] sep = []"
| "strings_Join [e] sep = e"
| "strings_Join (e # e' # es) sep = e @ sep @ strings_Join (e' # es) sep"

text \<open>
  \<open>path.Clean\<close>, by the rules of its documentation, on the elements between the
  slashes: an empty element and \<open>.\<close> are dropped; \<open>..\<close> removes the element before
  it, is dropped at the root of a rooted path and is kept at the start of a path that
  is not rooted. \<open>out\<close> holds the elements written so far. The result of a rooted
  path starts with a slash, and an empty result is \<open>.\<close>.
\<close>

fun clean_elements :: "bool \<Rightarrow> string list \<Rightarrow> string list \<Rightarrow> string list" where
  "clean_elements rooted out [] = out"
| "clean_elements rooted out (e # es) =
     (if e = [] \<or> e = ''.'' then clean_elements rooted out es
      else if e = ''..'' then
        (if out \<noteq> [] \<and> last out \<noteq> ''..'' then clean_elements rooted (butlast out) es
         else if rooted then clean_elements rooted out es
         else clean_elements rooted (out @ [''..'']) es)
      else clean_elements rooted (out @ [e]) es)"

definition path_Clean :: "string \<Rightarrow> string" where
  "path_Clean p =
     (if p = [] then ''.''
      else let rooted = (hd p = CHR ''/'');
               out = strings_Join (clean_elements rooted [] (strings_Split p ''/'')) ''/''
           in if rooted then ''/'' @ out else if out = [] then ''.'' else out)"

text \<open>\<open>path.Join\<close> joins the non-empty elements with slashes and cleans the result.\<close>

definition path_Join :: "string list \<Rightarrow> string" where
  "path_Join elem =
     (let es = filter (\<lambda>e. e \<noteq> []) elem
      in if es = [] then [] else path_Clean (strings_Join es ''/''))"

subsection \<open>creatPrefix\<close>

text \<open>
  The results are \<open>(cleanPrefix, prefixPath, prefixParam)\<close>. The index expressions
  \<open>[0]\<close> panic on an empty slice, the value \<open>None\<close>.
\<close>

definition creatPrefix :: "string \<Rightarrow> (string \<times> string \<times> string) option" where
  "creatPrefix prefix =
     (case strings_Split (path_Clean (path_Join [''/'', prefix])) ''?'' of
        [] \<Rightarrow> None
      | cleanPrefix # _ \<Rightarrow>
         (case strings_Split cleanPrefix ''/:'' of
            [] \<Rightarrow> None
          | prefixPath # rest \<Rightarrow>
              Some (cleanPrefix, prefixPath,
                    if 1 < length (prefixPath # rest)
                    then ''/:'' @ strings_Join rest ''/:'' else [])))"

subsection \<open>Slices\<close>

text \<open>
  A slice is a window on a backing array: the array's address, the offset of the
  slice's first element and its length. The arrays of strings and of parameters live
  in two stores, each with the number of arrays in use, so that \<open>make\<close> places a new
  array at that address. \<open>slice_elems\<close> reads the elements of a slice.
\<close>

record slice =
  arr :: addr
  off :: nat
  len :: nat

definition slice_elems :: "(addr \<Rightarrow> 'a list) \<Rightarrow> slice \<Rightarrow> 'a list" where
  "slice_elems h sl = take (len sl) (drop (off sl) (h (arr sl)))"

subsection \<open>VirtHandler and its registry\<close>

text \<open>
  The struct \<open>VirtHandler\<close>; its \<open>id\<close> is \<open>id'\<close> and its mutex is left out. The fields
  \<open>methods\<close>, \<open>produces\<close> and \<open>params\<close> are slices. \<open>virt_objects\<close> holds the struct
  each \<open>*VirtHandler\<close> points to; \<open>virtHandlerMap\<close> and \<open>handlerMap\<close> are the global
  maps. A \<open>HandlerFunc\<close> is kept as what \<open>reflect\<close> sees of it.
\<close>

record VirtHandler =
  id' :: string
  methods :: slice
  prefix :: string
  prefixPath :: string
  prefixParam :: string
  description :: string
  produces :: slice
  params :: slice

record 'f virt_state =
  string_arrays :: "addr \<Rightarrow> string list"
  string_arrays_used :: nat
  param_arrays :: "addr \<Rightarrow> 'f Param list"
  param_arrays_used :: nat
  virt_objects :: "addr \<Rightarrow> VirtHandler"
  virt_allocated :: nat
  virtHandlerMap :: "string \<rightharpoonup> addr"
  handlerMap :: "string \<rightharpoonup> callback"

definition setVirtHandler :: "addr \<Rightarrow> 'f virt_state \<Rightarrow> 'f virt_state" where
  "setVirtHandler vh s =
     s\<lparr>virtHandlerMap := (virtHandlerMap s)(VirtHandler.id' (virt_objects s vh) \<mapsto> vh)\<rparr>"

definition hasVirtHandler :: "'f virt_state \<Rightarrow> string \<Rightarrow> bool" where
  "hasVirtHandler s i = (virtHandlerMap s i \<noteq> None)"

definition setHandlerMap :: "string \<Rightarrow> callback \<Rightarrow> 'f virt_state \<Rightarrow> 'f virt_state" where
  "setHandlerMap i handler s = s\<lparr>handlerMap := (handlerMap s)(i \<mapsto> handler)\<rparr>"

text \<open>\<open>handleWareUri\<close> ranges over the elements of the slice \<open>methods\<close>, given here.\<close>

definition handleWareUri :: "callback \<Rightarrow> string list \<Rightarrow> string \<Rightarrow> string" where
  "handleWareUri hw ms pre =
     (let add = add_brackets (''['' @ pre @ '']'') ms
      in case hw of FuncValue name \<Rightarrow> name @ add | OtherValue t \<Rightarrow> t @ add)"

text \<open>
  \<open>NewVirtHandler\<close> builds the new struct before it looks the id up. It returns the
  pointer the source returns (the map's entry, or the new object) and the new state.
\<close>

definition NewVirtHandler ::
  "callback \<Rightarrow> string \<Rightarrow> slice \<Rightarrow> string \<Rightarrow> slice \<Rightarrow> slice \<Rightarrow> 'f virt_state \<Rightarrow>
   (addr option \<times> 'f virt_state) option" where
  "NewVirtHandler handlerfunc pre ms descr prods pars s =
     (case creatPrefix pre of
        None \<Rightarrow> None
      | Some (pre', path, param) \<Rightarrow>
         (let i = handleWareUri handlerfunc (slice_elems (string_arrays s) ms) pre';
              v = virt_allocated s;
              s' = s\<lparr>virt_objects := (virt_objects s)
                        (v := \<lparr>id' = i, methods = ms, prefix = pre', prefixPath = path,
                               prefixParam = param, description = descr, produces = prods,
                               params = pars\<rparr>),
                      virt_allocated := Suc v\<rparr>
          in if hasVirtHandler s' i then Some (virtHandlerMap s' i, s')
             else Some (Some v, setHandlerMap i handlerfunc (setVirtHandler v s'))))"

subsection \<open>The accessors of VirtHandler\<close>

text \<open>
  \<open>make([]string, n)\<close> and \<open>make([]Param, n)\<close>: a new array of \<open>n\<close> zero values and
  the slice that covers it.
\<close>

definition make_strings :: "nat \<Rightarrow> 'f virt_state \<Rightarrow> slice \<times> 'f virt_state" where
  "make_strings n s =
     (\<lparr>arr = string_arrays_used s, off = 0, len = n\<rparr>,
      s\<lparr>string_arrays := (string_arrays s)(string_arrays_used s := replicate n []),
        string_arrays_used := Suc (string_arrays_used s)\<rparr>)"

definition zero_Param :: "'f Param" where
  "zero_Param = \<lparr>Name = [], In = [], Required = False, Format = None, ParamDesc = []\<rparr>"

definition make_params :: "nat \<Rightarrow> 'f virt_state \<Rightarrow> slice \<times> 'f virt_state" where
  "make_params n s =
     (\<lparr>arr = param_arrays_used s, off = 0, len = n\<rparr>,
      s\<lparr>param_arrays := (param_arrays s)(param_arrays_used s := replicate n zero_Param),
        param_arrays_used := Suc (param_arrays_used s)\<rparr>)"

text \<open>
  The builtin \<open>copy(dst, src)\<close> on strings: the first \<open>min (len dst) (len src)\<close>
  elements of \<open>src\<close> overwrite those of \<open>dst\<close>.
\<close>

definition copy_strings :: "slice \<Rightarrow> slice \<Rightarrow> 'f virt_state \<Rightarrow> 'f virt_state" where
  "copy_strings dst src s =
     (let n = min (len dst) (len src);
          xs = take n (slice_elems (string_arrays s) src);
          a = string_arrays s (arr dst)
      in s\<lparr>string_arrays := (string_arrays s)
             (arr dst := take (off dst) a @ xs @ drop (off dst + length xs) a)\<rparr>)"

text \<open>
  The assignments \<open>sl[i] = x\<close>; an index outside the slice is a panic, \<open>None\<close>.
\<close>

definition store_string :: "slice \<Rightarrow> nat \<Rightarrow> string \<Rightarrow> 'f virt_state \<Rightarrow> 'f virt_state option" where
  "store_string sl i x s =
     (if i < len sl
      then Some (s\<lparr>string_arrays := (string_arrays s)
                    (arr sl := (string_arrays s (arr sl))[off sl + i := x])\<rparr>)
      else None)"

definition store_param :: "slice \<Rightarrow> nat \<Rightarrow> 'f Param \<Rightarrow> 'f virt_state \<Rightarrow> 'f virt_state option" where
  "store_param sl i x s =
     (if i < len sl
      then Some (s\<lparr>param_arrays := (param_arrays s)
                    (arr sl := (param_arrays s (arr sl))[off sl + i := x])\<rparr>)
      else None)"

definition Methods :: "addr \<Rightarrow> 'f virt_state \<Rightarrow> slice \<times> 'f virt_state" where
  "Methods v s =
     (let (ms, s') = make_strings (len (VirtHandler.methods (virt_objects s v))) s
      in (ms, copy_strings ms (VirtHandler.methods (virt_objects s' v)) s'))"

text \<open>
  The loop \<open>for key, val := range v.params { p[key] = val }\<close>: the length of the
  ranged slice is fixed at the start and each element is read when its turn comes.
\<close>

function Params_loop :: "slice \<Rightarrow> slice \<Rightarrow> nat \<Rightarrow> 'f virt_state \<Rightarrow> 'f virt_state option" where
  "Params_loop p src key s =
     (if key < len src then
        (case store_param p key (param_arrays s (arr src) ! (off src + key)) s of
           None \<Rightarrow> None
         | Some s' \<Rightarrow> Params_loop p src (key + 1) s')
      else Some s)"
  by pat_completeness auto
termination
  by (relation "measure (\<lambda>(p, src, key, s). len src - key)") auto

declare Params_loop.simps [simp del]

definition Params' :: "addr \<Rightarrow> 'f virt_state \<Rightarrow> (slice \<times> 'f virt_state) option" where
  "Params' v s =
     (let (p, s') = make_params (len (params (virt_objects s v))) s
      in case Params_loop p (params (virt_objects s' v)) 0 s' of
           None \<Rightarrow> None
         | Some s'' \<Rightarrow> Some (p, s''))"

definition Produces :: "addr \<Rightarrow> 'f virt_state \<Rightarrow> slice" where
  "Produces v s = produces (virt_objects s v)"


section \<open>engine/fasthttp/server.go\<close>

subsection \<open>Start\<close>

text \<open>
  A \<open>net.Listener\<close> is an opaque handle; the nil listener is \<open>None\<close>.
\<close>

type_synonym listener = nat

text \<open>
  Modelled from the spec: the struct \<open>engine.Config\<close> is declared in package
  \<open>engine\<close>. The spec gives its fields: \<open>Address\<close> (string), \<open>TLSCertfile\<close> and
  \<open>TLSKeyfile\<close> (paths) and \<open>Listener\<close> (an optional pre-bound socket).
\<close>

record Config =
  Address :: string
  TLSCertfile :: string
  TLSKeyfile :: string
  Listener :: "listener option"

text \<open>
  \<open>Start\<close> ends in exactly one call into the embedded \<open>fasthttp.Server\<close> and returns
  that call's error. The call made is the observable effect, so it is the value of the
  model.
\<close>

datatype serve_call =
    ListenAndServeTLS string string string
  | ListenAndServe string
  | ServeTLS "listener option" string string
  | Serve "listener option"

definition startDefaultListener :: "Config \<Rightarrow> serve_call" where
  "startDefaultListener c =
     (if TLSCertfile c \<noteq> [] \<and> TLSKeyfile c \<noteq> []
      then ListenAndServeTLS (Address c) (TLSCertfile c) (TLSKeyfile c)
      else ListenAndServe (Address c))"

definition startCustomListener :: "Config \<Rightarrow> serve_call" where
  "startCustomListener c =
     (if TLSCertfile c \<noteq> [] \<and> TLSKeyfile c \<noteq> []
      then ServeTLS (Listener c) (TLSCertfile c) (TLSKeyfile c)
      else Serve (Listener c))"

definition Start :: "Config \<Rightarrow> serve_call" where
  "Start c =
     (if Listener c = None then startDefaultListener c else startCustomListener c)"

subsection \<open>ServeHTTP\<close>

text \<open>
  A \<open>sync.Pool\<close> with its \<open>New\<close> function: the instances that lie in the pool, and the
  number of instances \<open>New\<close> has made, which is the address of the next one.

  What \<open>Get\<close> hands out is the pool's choice, not the caller's: the pool may have
  dropped instances since they were put, it may hand out any instance it still holds,
  and it may treat itself as empty and call \<open>New\<close>. A \<open>pool_choice\<close> is one such
  choice: the instances dropped, and the instance picked (\<open>None\<close>, or an instance the
  pool does not hold, for \<open>New\<close>). \<open>Get\<close> takes the picked instance out of the pool;
  \<open>Put\<close> lays an instance into the pool.
\<close>

record sync_Pool =
  idle :: "addr list"
  made :: nat

record pool_choice =
  dropped :: "addr list"
  pick :: "addr option"

definition Get :: "pool_choice \<Rightarrow> sync_Pool \<Rightarrow> addr \<times> sync_Pool" where
  "Get ch p =
     (let held = filter (\<lambda>x. x \<notin> set (dropped ch)) (idle p)
      in case pick ch of
           None \<Rightarrow> (made p, p\<lparr>idle := held, made := Suc (made p)\<rparr>)
         | Some x \<Rightarrow>
             if x \<in> set held then (x, p\<lparr>idle := remove1 x held\<rparr>)
             else (made p, p\<lparr>idle := held, made := Suc (made p)\<rparr>))"

definition Put :: "addr \<Rightarrow> sync_Pool \<Rightarrow> sync_Pool" where
  "Put x p = p\<lparr>idle := x # idle p\<rparr>"

text \<open>The struct \<open>pool\<close> of the five pools, and the choice each pool makes at its \<open>Get\<close>.\<close>

record pool =
  request :: sync_Pool
  response :: sync_Pool
  requestHeader :: sync_Pool
  responseHeader :: sync_Pool
  url :: sync_Pool

record choices =
  request_choice :: pool_choice
  response_choice :: pool_choice
  requestHeader_choice :: pool_choice
  responseHeader_choice :: pool_choice
  url_choice :: pool_choice

text \<open>
  The wrapper types and their \<open>reset\<close> methods are declared in other files of the
  package. What the wrappers and the native context hold is a world of type \<open>'w\<close>, a
  native context is a \<open>'c\<close>, and the five \<open>reset\<close> methods are parameters that change
  the world.
\<close>

record ('c, 'w) wrappers =
  RequestHeader_reset :: "addr \<Rightarrow> 'c \<Rightarrow> 'w \<Rightarrow> 'w"
  URL_reset :: "addr \<Rightarrow> 'c \<Rightarrow> 'w \<Rightarrow> 'w"
  Request_reset :: "addr \<Rightarrow> 'c \<Rightarrow> addr \<Rightarrow> addr \<Rightarrow> 'w \<Rightarrow> 'w"
  ResponseHeader_reset :: "addr \<Rightarrow> 'c \<Rightarrow> 'w \<Rightarrow> 'w"
  Response_reset :: "addr \<Rightarrow> 'c \<Rightarrow> addr \<Rightarrow> 'w \<Rightarrow> 'w"

text \<open>
  The handler of the server is called with the request and the response wrapper. It
  returns nothing: an application-level error is part of the world it leaves. A
  handler that panics is \<open>None\<close>.
\<close>

type_synonym 'w engine_Handler = "addr \<Rightarrow> addr \<Rightarrow> 'w \<Rightarrow> 'w option"

text \<open>
  Of the struct \<open>Server\<close>, \<open>ServeHTTP\<close> uses the handler and the pools. It either
  returns or panics with the handler. \<open>Returns called returned w\<close> records the pools
  as they are when the handler is called, the pools as they are when \<open>ServeHTTP\<close>
  returns, and the world the handler leaves; \<open>Panics called\<close> records the pools as
  they are at the call of the handler, which is how the panic leaves them.
\<close>

datatype 'w served = Returns pool pool 'w | Panics pool

definition ServeHTTP ::
  "('c, 'w) wrappers \<Rightarrow> choices \<Rightarrow> 'w engine_Handler \<Rightarrow> pool \<Rightarrow> 'c \<Rightarrow> 'w \<Rightarrow> 'w served" where
  "ServeHTTP W ch handler p c w =
     (case Get (request_choice ch) (request p) of (rq, request') \<Rightarrow>
      case Get (requestHeader_choice ch) (requestHeader p) of (rqHdr, requestHeader') \<Rightarrow>
      case Get (url_choice ch) (url p) of (rqURL, url') \<Rightarrow>
      let w1 = RequestHeader_reset W rqHdr c w;
          w2 = URL_reset W rqURL c w1;
          w3 = Request_reset W rq c rqHdr rqURL w2
      in
      case Get (response_choice ch) (response p) of (rs, response') \<Rightarrow>
      case Get (responseHeader_choice ch) (responseHeader p) of (rsHdr, responseHeader') \<Rightarrow>
      let w4 = ResponseHeader_reset W rsHdr c w3;
          w5 = Response_reset W rs c rsHdr w4;
          called = \<lparr>request = request', response = response', requestHeader = requestHeader',
                    responseHeader = responseHeader', url = url'\<rparr>
      in
      case handler rq rs w5 of
        None \<Rightarrow> Panics called
      | Some w6 \<Rightarrow>
          Returns called
            \<lparr>request = Put rq request', response = Put rs response',
             requestHeader = Put rqHdr requestHeader',
             responseHeader = Put rsHdr responseHeader', url = Put rqURL url'\<rparr> w6)"


section \<open>The claims' words and example inputs\<close>

subsection \<open>Method types and example descriptors\<close>

definition standard_types :: "string list" where
  "standard_types = [CONNECT, DELETE, GET, HEAD, OPTIONS, PATCH, POST, PUT, TRACE]"

definition declared_or_default :: "'f ApiHandler \<Rightarrow> string list" where
  "declared_or_default a = (if Types a = [] then standard_types else Types a)"

text \<open>
  The elements of \<open>xs\<close> that survive the removal of adjacent duplicates when \<open>x\<close>
  stands before them.
\<close>

definition survivors :: "string \<Rightarrow> string list \<Rightarrow> string list" where
  "survivors x xs = tl (remdups_adj (x # xs))"

definition blank :: "unit ApiHandler" where
  "blank = \<lparr>Desc = [], Types = [], methods = [], Params = [], Handler = FuncValue [],
            id' = [], suffix = [], inited = False\<rparr>"

definition case_variants :: "unit ApiHandler" where
  "case_variants = blank\<lparr>Types := [''GET'', ''get'', ''POST'']\<rparr>"

definition three_objects :: "unit registry" where
  "three_objects =
     \<lparr>objects = (\<lambda>a. blank\<lparr>ApiHandler.id' := (if a = 0 then ''a'' else if a = 1 then ''c'' else ''b'')\<rparr>),
      allocated = 3, apiHandlerMap = Map.empty, apiHandlers = [0, 1]\<rparr>"

subsection \<open>Prefixes\<close>

text \<open>The substring stands in \<open>s\<close> at index \<open>j\<close>.\<close>

definition occurs_at :: "string \<Rightarrow> string \<Rightarrow> nat \<Rightarrow> bool" where
  "occurs_at substr s j = (j + length substr \<le> length s \<and> take (length substr) (drop j s) = substr)"

text \<open>A path element that cleaning leaves: not empty, not a dot segment, without a slash.\<close>

definition clean_element :: "string \<Rightarrow> bool" where
  "clean_element e = (e \<noteq> [] \<and> e \<noteq> ''.'' \<and> e \<noteq> ''..'' \<and> CHR ''/'' \<notin> set e)"

subsection \<open>Slices, and an example state\<close>

text \<open>
  A slice of the program lies inside an array that exists: its array is in use and
  holds the slice's window. The nil slice is a slice of length 0.
\<close>

definition valid_strings :: "'f virt_state \<Rightarrow> slice \<Rightarrow> bool" where
  "valid_strings s sl =
     (arr sl < string_arrays_used s \<and> off sl + len sl \<le> length (string_arrays s (arr sl)))"

definition valid_params :: "'f virt_state \<Rightarrow> slice \<Rightarrow> bool" where
  "valid_params s sl =
     (arr sl < param_arrays_used s \<and> off sl + len sl \<le> length (param_arrays s (arr sl)))"

definition listing :: "unit virt_state" where
  "listing =
     \<lparr>string_arrays = (\<lambda>a. if a = 0 then [''GET'', ''POST''] else [''application/json'']),
      string_arrays_used = 2,
      param_arrays = (\<lambda>a. [zero_Param\<lparr>Name := ''id'', In := ''path''\<rparr>]),
      param_arrays_used = 1,
      virt_objects = (\<lambda>a. \<lparr>id' = ''main.h[/users][GET][POST]'',
                              methods = \<lparr>arr = 0, off = 0, len = 2\<rparr>,
                              prefix = ''/users'', prefixPath = ''/users'', prefixParam = [],
                              description = ''users'',
                              produces = \<lparr>arr = 1, off = 0, len = 1\<rparr>,
                              params = \<lparr>arr = 0, off = 0, len = 1\<rparr>\<rparr>),
      virt_allocated = 1,
      virtHandlerMap = [''main.h[/users][GET][POST]'' \<mapsto> 0],
      handlerMap = [''main.h[/users][GET][POST]'' \<mapsto> FuncValue ''main.h'']\<rparr>"

subsection \<open>Identities and registration\<close>

text \<open>
  The identity formulas of the spec: a bracketed string is written between \<open>[\<close> and
  \<open>]\<close>; the operation-bound identity is made of the suffix, the description and the
  types, the prefix-bound identity of the prefix and the methods; both are joined to
  the callback's symbolic identity.
\<close>

definition bracketed :: "string \<Rightarrow> string" where
  "bracketed x = ''['' @ x @ '']''"

definition operation_identity :: "callback \<Rightarrow> string \<Rightarrow> string \<Rightarrow> string list \<Rightarrow> string" where
  "operation_identity cb sfx descr ts =
     symbolic_identity cb @ bracketed sfx @ bracketed descr @ concat (map bracketed ts)"

definition prefix_identity :: "callback \<Rightarrow> string \<Rightarrow> string list \<Rightarrow> string" where
  "prefix_identity cb pre ms = symbolic_identity cb @ bracketed pre @ concat (map bracketed ms)"

definition final_types :: "'f ApiHandler \<Rightarrow> string list" where
  "final_types a = remdups_adj (sort (declared_or_default a))"

definition registered_id :: "'f ApiHandler \<Rightarrow> string" where
  "registered_id a =
     (if inited a then ApiHandler.id' a
      else operation_identity (Handler a) (path_suffix (Params a)) (Desc a) (final_types a))"

text \<open>
  \<open>initialised a ms\<close> is the descriptor that \<open>init\<close> makes of the declaration \<open>a\<close>,
  with the methods list \<open>ms\<close>. \<open>repeat_call f n\<close> makes the same call \<open>n\<close> times in a
  row, and collects what the calls return.
\<close>

definition initialised :: "'f ApiHandler \<Rightarrow> string list \<Rightarrow> 'f ApiHandler" where
  "initialised a ms =
     a\<lparr>Types := final_types a, ApiHandler.methods := ms,
       Params := map force_required (Params a), suffix := path_suffix (Params a),
       ApiHandler.id' := registered_id a, inited := True\<rparr>"

fun repeat_call :: "('s \<Rightarrow> ('r \<times> 's) option) \<Rightarrow> nat \<Rightarrow> 's \<Rightarrow> ('r list \<times> 's) option" where
  "repeat_call f 0 s = Some ([], s)"
| "repeat_call f (Suc n) s =
     (case f s of
        None \<Rightarrow> None
      | Some (r, s') \<Rightarrow>
         (case repeat_call f n s' of
            None \<Rightarrow> None
          | Some (rs, s'') \<Rightarrow> Some (r # rs, s'')))"

text \<open>
  The prefix \<open>creatPrefix\<close> returns first, and the id \<open>NewVirtHandler\<close> derives in the
  state \<open>s\<close>.
\<close>

definition clean_prefix :: "string \<Rightarrow> string" where
  "clean_prefix raw = takeWhile (\<lambda>c. c \<noteq> CHR ''?'') (path_Clean (path_Join [''/'', raw]))"

definition virt_identity :: "'f virt_state \<Rightarrow> callback \<Rightarrow> string \<Rightarrow> slice \<Rightarrow> string" where
  "virt_identity s handlerfunc raw ms =
     prefix_identity handlerfunc (clean_prefix raw) (slice_elems (string_arrays s) ms)"

text \<open>An empty registry and a declaration with a duplicate type and two parameters.\<close>

definition no_handlers :: "unit registry" where
  "no_handlers = \<lparr>objects = (\<lambda>a. blank), allocated = 0, apiHandlerMap = Map.empty, apiHandlers = []\<rparr>"

definition user_by_id :: "unit ApiHandler" where
  "user_by_id =
     blank\<lparr>Desc := ''user'', Types := [''POST'', ''GET'', ''GET''],
           Params := [zero_Param\<lparr>Name := ''id'', In := ''path''\<rparr>,
                      zero_Param\<lparr>Name := ''name'', In := ''query''\<rparr>],
           Handler := FuncValue ''main.user''\<rparr>"

text \<open>
  Every descriptor of the list is an object in use, and the list is in ascending order
  of ids.
\<close>

definition ordered_registry :: "'f registry \<Rightarrow> bool" where
  "ordered_registry s =
     ((\<forall>a\<in>set (apiHandlers s). a < allocated s) \<and> sorted (map (Id' s) (apiHandlers s)))"

subsection \<open>Serving\<close>

text \<open>What a call into the transport engine means, in the words of the spec.\<close>

fun serves_tls :: "serve_call \<Rightarrow> bool" where
  "serves_tls (ListenAndServeTLS a c k) = True"
| "serves_tls (ListenAndServe a) = False"
| "serves_tls (ServeTLS l c k) = True"
| "serves_tls (Serve l) = False"

fun attached_listener :: "serve_call \<Rightarrow> listener option" where
  "attached_listener (ListenAndServeTLS a c k) = None"
| "attached_listener (ListenAndServe a) = None"
| "attached_listener (ServeTLS l c k) = l"
| "attached_listener (Serve l) = l"

fun bound_address :: "serve_call \<Rightarrow> string option" where
  "bound_address (ListenAndServeTLS a c k) = Some a"
| "bound_address (ListenAndServe a) = Some a"
| "bound_address (ServeTLS l c k) = None"
| "bound_address (Serve l) = None"

fun tls_files :: "serve_call \<Rightarrow> (string \<times> string) option" where
  "tls_files (ListenAndServeTLS a c k) = Some (c, k)"
| "tls_files (ListenAndServe a) = None"
| "tls_files (ServeTLS l c k) = Some (c, k)"
| "tls_files (Serve l) = None"

text \<open>
  The claim's words. \<open>acquired ch p\<close> is the instance a dispatch cycle acquires from
  the pool \<open>p\<close>, and \<open>handler_world\<close> the world in which the handler is invoked. A
  pool holds an instance that lies in it. An instance is released between the call of
  the handler and the return when it is out of its pool at the call and the pool at
  the return is the pool at the call with the instance laid back. A pool is in order
  when no instance lies in it twice and every instance in it has been made.
\<close>

definition acquired :: "pool_choice \<Rightarrow> sync_Pool \<Rightarrow> addr" where
  "acquired ch p = fst (Get ch p)"

definition handler_world :: "('c, 'w) wrappers \<Rightarrow> choices \<Rightarrow> pool \<Rightarrow> 'c \<Rightarrow> 'w \<Rightarrow> 'w" where
  "handler_world W ch p c w =
     Response_reset W (acquired (response_choice ch) (response p)) c
         (acquired (responseHeader_choice ch) (responseHeader p))
       (ResponseHeader_reset W (acquired (responseHeader_choice ch) (responseHeader p)) c
         (Request_reset W (acquired (request_choice ch) (request p)) c
             (acquired (requestHeader_choice ch) (requestHeader p))
             (acquired (url_choice ch) (url p))
           (URL_reset W (acquired (url_choice ch) (url p)) c
             (RequestHeader_reset W (acquired (requestHeader_choice ch) (requestHeader p)) c w))))"

definition holds :: "sync_Pool \<Rightarrow> addr \<Rightarrow> bool" where
  "holds p x = (x \<in> set (idle p))"

definition released :: "addr \<Rightarrow> sync_Pool \<Rightarrow> sync_Pool \<Rightarrow> bool" where
  "released x called returned =
     (\<not> holds called x \<and> returned = Put x called \<and> holds returned x)"

definition pool_ok :: "sync_Pool \<Rightarrow> bool" where
  "pool_ok p = (distinct (idle p) \<and> (\<forall>x\<in>set (idle p). x < made p))"

definition pools_ok :: "pool \<Rightarrow> bool" where
  "pools_ok p =
     (pool_ok (request p) \<and> pool_ok (response p) \<and> pool_ok (requestHeader p) \<and>
      pool_ok (responseHeader p) \<and> pool_ok (url p))"

text \<open>
  Wrappers whose response reset sets the status 200, a handler that reports the
  application-level error 500, pools of which some hold instances, and choices by
  which the pools hand out an instance that was not put last, drop one, and call \<open>New\<close>
  although an instance lies idle.
\<close>

definition plain_wrappers :: "(unit, nat) wrappers" where
  "plain_wrappers =
     \<lparr>RequestHeader_reset = (\<lambda>a c w. w), URL_reset = (\<lambda>a c w. w),
      Request_reset = (\<lambda>a c h u w. w), ResponseHeader_reset = (\<lambda>a c w. w),
      Response_reset = (\<lambda>a c h w. 200)\<rparr>"

definition failing_handler :: "nat engine_Handler" where
  "failing_handler rq rs w = Some 500"

definition warm_pool :: pool where
  "warm_pool =
     \<lparr>request = \<lparr>idle = [0], made = 1\<rparr>, response = \<lparr>idle = [], made = 0\<rparr>,
      requestHeader = \<lparr>idle = [1, 0], made = 2\<rparr>, responseHeader = \<lparr>idle = [2], made = 3\<rparr>,
      url = \<lparr>idle = [0], made = 1\<rparr>\<rparr>"

definition some_choices :: choices where
  "some_choices =
     \<lparr>request_choice = \<lparr>dropped = [], pick = Some 0\<rparr>,
      response_choice = \<lparr>dropped = [], pick = None\<rparr>,
      requestHeader_choice = \<lparr>dropped = [], pick = Some 0\<rparr>,
      responseHeader_choice = \<lparr>dropped = [], pick = None\<rparr>,
      url_choice = \<lparr>dropped = [0], pick = Some 0\<rparr>\<rparr>"


section \<open>Results\<close>

subsection \<open>Listener and TLS selection\<close>

text \<open>
  Claim C8. \<open>Start\<close> serves on the supplied listener when the configuration has one and
  binds a listener to the configured address otherwise; in both cases it serves TLS,
  with the configured certificate and key, exactly when both paths are non-empty, and
  plaintext otherwise.
\<close>

theorem Start_selects_listener_and_tls:
  "attached_listener (Start c) = Listener c \<and>
   bound_address (Start c) = (if Listener c = None then Some (Address c) else None) \<and>
   serves_tls (Start c) = (TLSCertfile c \<noteq> [] \<and> TLSKeyfile c \<noteq> []) \<and>
   tls_files (Start c) =
     (if TLSCertfile c \<noteq> [] \<and> TLSKeyfile c \<noteq> [] then Some (TLSCertfile c, TLSKeyfile c)
      else None)"
  by (simp add: Start_def startDefaultListener_def startCustomListener_def)

subsection \<open>The path suffix\<close>

lemma path_suffix_Cons:
  "path_suffix (p # ps) = (if In p = ''path'' then ''/:'' @ Name p @ path_suffix ps else path_suffix ps)"
  by (simp add: path_suffix_def)

lemma initParamsAndSuffix_loop_eq:
  "i \<le> length ps \<Longrightarrow> count = length ps \<Longrightarrow>
   initParamsAndSuffix_loop i count ps sfx =
     Some (take i ps @ map force_required (drop i ps), sfx @ path_suffix (drop i ps))"
proof (induction i count ps sfx rule: initParamsAndSuffix_loop.induct)
  case (1 i count ps sfx)
  show ?case
  proof (cases "i < count")
    case False
    with "1.prems" show ?thesis
      by (subst initParamsAndSuffix_loop.simps) (simp add: path_suffix_def)
  next
    case True
    with "1.prems" have lt: "i < length ps" by simp
    then have dr: "drop i ps = ps ! i # drop (Suc i) ps"
      by (simp add: Cons_nth_drop_Suc)
    have tk: "take (Suc i) ps = take i ps @ [ps ! i]"
      using lt by (simp add: take_Suc_conv_app_nth)
    show ?thesis
    proof (cases "In (ps ! i) = ''path''")
      case path: True
      let ?ps' = "ps[i := (ps ! i)\<lparr>Required := True\<rparr>]"
      have "initParamsAndSuffix_loop (i + 1) count ?ps' (sfx @ ''/:'' @ Name (ps ! i)) =
            Some (take (i + 1) ?ps' @ map force_required (drop (i + 1) ?ps'),
                  (sfx @ ''/:'' @ Name (ps ! i)) @ path_suffix (drop (i + 1) ?ps'))"
        using "1.IH"(1) [OF True lt path] lt "1.prems" by simp
      moreover have "take (i + 1) ?ps' = take i ps @ [(ps ! i)\<lparr>Required := True\<rparr>]"
        using lt by (simp add: take_Suc_conv_app_nth)
      moreover have "drop (i + 1) ?ps' = drop (Suc i) ps"
        by simp
      ultimately show ?thesis
        using True lt path dr
        by (subst initParamsAndSuffix_loop.simps)
           (simp add: force_required_def path_suffix_Cons)
    next
      case nopath: False
      have "initParamsAndSuffix_loop (i + 1) count ps sfx =
            Some (take (i + 1) ps @ map force_required (drop (i + 1) ps),
                  sfx @ path_suffix (drop (i + 1) ps))"
        using "1.IH"(2) [OF True lt nopath] lt "1.prems" by simp
      then show ?thesis
        using True lt nopath dr tk
        by (subst initParamsAndSuffix_loop.simps)
           (simp add: force_required_def path_suffix_Cons)
    qed
  qed
qed

lemma initParamsAndSuffix_eq:
  "initParamsAndSuffix a =
     Some (a\<lparr>Params := map force_required (Params a), suffix := path_suffix (Params a)\<rparr>)"
  by (simp add: initParamsAndSuffix_def initParamsAndSuffix_loop_eq)

text \<open>
  Claim C5. For every declared parameter list, the derived suffix is the concatenation
  of \<open>"/:" + Name\<close> for exactly the parameters whose location is \<open>"path"\<close>, in the
  order of the declared list; each of these parameters has \<open>Required\<close> set to true;
  a parameter in any other location adds nothing to the suffix and is left as it is.
  The call never panics and changes no other field.
\<close>

theorem initParamsAndSuffix_derives_suffix:
  "initParamsAndSuffix a =
     Some (a\<lparr>Params := map force_required (Params a), suffix := path_suffix (Params a)\<rparr>)"
  by (rule initParamsAndSuffix_eq)

subsection \<open>Method normalization\<close>

lemma survivors_Cons:
  "survivors x (y # ys) = (if x = y then survivors x ys else y # survivors y ys)"
  by (simp add: survivors_def)

lemma initTypes_loop_from:
  "0 < i \<Longrightarrow> i \<le> count \<Longrightarrow> count = length ts \<Longrightarrow>
   initTypes_loop G i count ts ms =
     Some (take i ts @ survivors (ts ! (i - 1)) (drop i ts),
           ms @ map G (survivors (ts ! (i - 1)) (drop i ts)))"
proof (induction G i count ts ms rule: initTypes_loop.induct)
  case (1 G i count ts ms)
  show ?case
  proof (cases "i < count")
    case False
    with "1.prems" show ?thesis
      by (subst initTypes_loop.simps) (simp add: survivors_def)
  next
    case True
    with "1.prems" have lt: "i < length ts" by simp
    have dr: "drop i ts = ts ! i # drop (Suc i) ts"
      using lt by (simp add: Cons_nth_drop_Suc)
    show ?thesis
    proof (cases "ts ! (i - 1) = ts ! i")
      case dup: True
      let ?ts' = "take i ts @ drop (i + 1) ts"
      have c: "0 < i \<and> ts ! (i - 1) = ts ! i" using dup "1.prems" by simp
      have len: "count - 1 = length ?ts'" using lt "1.prems" by simp
      have "initTypes_loop G i (count - 1) ?ts' ms =
        Some (take i ?ts' @ survivors (?ts' ! (i - 1)) (drop i ?ts'),
              ms @ map G (survivors (?ts' ! (i - 1)) (drop i ?ts')))"
        using "1.IH"(1) [OF True lt c _ _ len] "1.prems" True by simp
      moreover have "take i ?ts' = take i ts" using lt by simp
      moreover have "drop i ?ts' = drop (Suc i) ts" using lt by simp
      moreover have "?ts' ! (i - 1) = ts ! (i - 1)"
        using lt "1.prems" by (simp add: nth_append)
      ultimately show ?thesis
        using True lt c dr
        by (subst initTypes_loop.simps) (simp add: survivors_Cons)
    next
      case nodup: False
      then have c: "\<not> (0 < i \<and> ts ! (i - 1) = ts ! i)" by simp
      have "initTypes_loop G (i + 1) count ts (ms @ [G (ts ! i)]) =
        Some (take (i + 1) ts @ survivors (ts ! (i + 1 - 1)) (drop (i + 1) ts),
              (ms @ [G (ts ! i)]) @ map G (survivors (ts ! (i + 1 - 1)) (drop (i + 1) ts)))"
        using "1.IH"(2) [OF True lt c] "1.prems" True by simp
      then show ?thesis
        using True lt c dr nodup
        by (subst initTypes_loop.simps)
           (simp add: survivors_Cons take_Suc_conv_app_nth)
    qed
  qed
qed

lemma initTypes_loop_all:
  "count = length ts \<Longrightarrow>
   initTypes_loop G 0 count ts ms = Some (remdups_adj ts, ms @ map G (remdups_adj ts))"
proof (cases ts)
  case Nil
  assume "count = length ts"
  with Nil show ?thesis by (subst initTypes_loop.simps) simp
next
  case (Cons t ts')
  assume c: "count = length ts"
  have "initTypes_loop G 1 count ts (ms @ [G (ts ! 0)]) =
     Some (take 1 ts @ survivors (ts ! (1 - 1)) (drop 1 ts),
           (ms @ [G (ts ! 0)]) @ map G (survivors (ts ! (1 - 1)) (drop 1 ts)))"
    by (rule initTypes_loop_from) (use c Cons in simp_all)
  moreover have "t # survivors t ts' = remdups_adj (t # ts')"
    by (simp add: survivors_def)
  moreover have "G t # map G (survivors t ts') = map G (remdups_adj (t # ts'))"
    by (metis list.simps(9) remdups_adj_Cons_alt survivors_def)
  ultimately show ?thesis
    using c Cons
    by (subst initTypes_loop.simps) (simp del: remdups_adj.simps)
qed

lemma initTypes_loop_zero:
  "initTypes_loop G 0 0 ts ms = Some (ts, ms)"
  by (subst initTypes_loop.simps) simp

lemma sorted_distinct_remdups_adj:
  "sorted (xs :: 'a::linorder list) \<Longrightarrow> distinct (remdups_adj xs)"
  by (induction xs rule: remdups_adj.induct) (auto)


lemma standard_types_sorted: "sort standard_types = standard_types"
  by (simp add: standard_types_def CONNECT_def DELETE_def GET_def HEAD_def OPTIONS_def
        PATCH_def POST_def PUT_def TRACE_def)

lemma standard_types_distinct: "distinct standard_types"
  by (simp add: standard_types_def CONNECT_def DELETE_def GET_def HEAD_def OPTIONS_def
        PATCH_def POST_def PUT_def TRACE_def)

lemma initTypes_empty:
  "Types a = [] \<Longrightarrow>
   initTypes G a = Some (a\<lparr>Types := standard_types, ApiHandler.methods := ApiHandler.methods a\<rparr>)"
  using standard_types_sorted
  by (simp add: initTypes_def initTypes_loop_zero standard_types_def)

lemma initTypes_nonempty:
  "Types a \<noteq> [] \<Longrightarrow>
   initTypes G a =
     Some (a\<lparr>Types := remdups_adj (sort (Types a)),
             ApiHandler.methods := ApiHandler.methods a @ map G (remdups_adj (sort (Types a)))\<rparr>)"
  by (simp add: initTypes_def initTypes_loop_all)

lemma initTypes_Types:
  "\<exists>a'. initTypes G a = Some a' \<and> Types a' = remdups_adj (sort (declared_or_default a))"
proof (cases "Types a = []")
  case True
  then show ?thesis
    using standard_types_sorted standard_types_distinct
    by (simp add: initTypes_empty declared_or_default_def remdups_adj_distinct)
next
  case False
  then show ?thesis
    by (simp add: initTypes_nonempty declared_or_default_def)
qed

text \<open>
  Claim C4, as the code has it. For every \<open>ApiHandler\<close>, \<open>initTypes\<close> returns; an
  empty \<open>Types\<close> list is replaced by the full standard method set; the types end up
  sorted byte-wise, without duplicates, and are the declared (or default) types with
  adjacent equal strings of the sorted list merged; and for a non-empty declared list
  the methods list gains \<open>GetMethodFromType t\<close> for exactly the surviving types
  \<open>t\<close>, in their order. Strings that differ in case are different types.
\<close>

theorem initTypes_normalizes:
  "(\<exists>a'. initTypes G a = Some a' \<and>
         Types a' = remdups_adj (sort (declared_or_default a)) \<and>
         sorted (Types a') \<and> distinct (Types a') \<and>
         set (Types a') = set (declared_or_default a)) \<and>
   (Types a \<noteq> [] \<longrightarrow>
      initTypes G a =
        Some (a\<lparr>Types := remdups_adj (sort (Types a)),
                ApiHandler.methods := ApiHandler.methods a @ map G (remdups_adj (sort (Types a)))\<rparr>))"
proof -
  obtain a' where a': "initTypes G a = Some a'"
      "Types a' = remdups_adj (sort (declared_or_default a))"
    using initTypes_Types by blast
  have "sorted (Types a')"
    using a'(2) by simp
  moreover have "distinct (Types a')"
    using a'(2) by (simp add: sorted_distinct_remdups_adj)
  moreover have "set (Types a') = set (declared_or_default a)"
    using a'(2) by simp
  ultimately show ?thesis
    using a' initTypes_nonempty [of a G] by blast
qed

text \<open>
  The declared types \<open>["GET", "get", "POST"]\<close>, with a resolver that returns the type
  itself: three types and three methods survive.
\<close>

theorem initTypes_normalizes_witness:
  "Types case_variants \<noteq> [] \<and>
   initTypes id case_variants =
     Some (case_variants\<lparr>Types := [''GET'', ''POST'', ''get''],
                          ApiHandler.methods := [''GET'', ''POST'', ''get'']\<rparr>)"
  using initTypes_normalizes [of id case_variants]
  by (simp add: case_variants_def blank_def)

text \<open>
  Claim C4 as stated says that \<open>["GET", "get", "POST"]\<close> normalizes to exactly the two
  methods \<open>GET\<close> and \<open>POST\<close>. The code keeps \<open>"get"\<close>: three entries are resolved.
\<close>

theorem initTypes_case_variants_counterexample:
  "initTypes id case_variants =
     Some (case_variants\<lparr>Types := [''GET'', ''POST'', ''get''],
                          ApiHandler.methods := [''GET'', ''POST'', ''get'']\<rparr>) \<and>
   [''GET'', ''POST'', ''get''] \<noteq> [GET, POST]"
  by (simp add: initTypes_def initTypes_loop.simps case_variants_def blank_def GET_def POST_def)


subsection \<open>The ordered list of descriptors\<close>

lemma setApiHandler_loop_eq:
  "i \<le> length (apiHandlers s) \<Longrightarrow>
   setApiHandler_loop s vh i =
     take i (apiHandlers s) @ takeWhile (\<lambda>h. \<not> Id' s vh < Id' s h) (drop i (apiHandlers s)) @
     vh # dropWhile (\<lambda>h. \<not> Id' s vh < Id' s h) (drop i (apiHandlers s))"
proof (induction s vh i rule: setApiHandler_loop.induct)
  case (1 s vh i)
  show ?case
  proof (cases "i < length (apiHandlers s)")
    case False
    with "1.prems" show ?thesis
      by (subst setApiHandler_loop.simps) simp
  next
    case True
    then have dr: "drop i (apiHandlers s) = apiHandlers s ! i # drop (Suc i) (apiHandlers s)"
      by (simp add: Cons_nth_drop_Suc)
    show ?thesis
    proof (cases "Id' s vh < Id' s (apiHandlers s ! i)")
      case less: True
      then show ?thesis
        using True dr by (subst setApiHandler_loop.simps) simp
    next
      case notless: False
      have "setApiHandler_loop s vh (i + 1) =
        take (i + 1) (apiHandlers s) @
        takeWhile (\<lambda>h. \<not> Id' s vh < Id' s h) (drop (i + 1) (apiHandlers s)) @
        vh # dropWhile (\<lambda>h. \<not> Id' s vh < Id' s h) (drop (i + 1) (apiHandlers s))"
        using "1.IH" [OF True notless] True by simp
      then show ?thesis
        using True notless dr
        by (subst setApiHandler_loop.simps) (simp add: take_Suc_conv_app_nth)
    qed
  qed
qed

lemma sorted_insert_before_greater:
  fixes f :: "'a \<Rightarrow> 'b::linorder"
  assumes "sorted (map f xs)"
  shows "sorted (map f (takeWhile (\<lambda>h. \<not> f v < f h) xs @ v # dropWhile (\<lambda>h. \<not> f v < f h) xs))"
  using assms
proof (induction xs)
  case Nil
  then show ?case by simp
next
  case (Cons x xs)
  show ?case
  proof (cases "f v < f x")
    case True
    with Cons.prems show ?thesis by (auto simp: less_imp_le order.trans)
  next
    case False
    with Cons show ?thesis
      by (auto dest: set_takeWhileD set_dropWhileD)
  qed
qed


text \<open>
  Claim C3. If the global list is in ascending order of ids, then after
  \<open>setApiHandler\<close> it still is: the new descriptor stands before the first
  descriptor with a greater id, or at the end when there is none.
\<close>

theorem setApiHandler_keeps_order:
  "sorted (map (Id' s) (apiHandlers s)) \<Longrightarrow>
   sorted (map (Id' (setApiHandler vh s)) (apiHandlers (setApiHandler vh s))) \<and>
   apiHandlers (setApiHandler vh s) =
     takeWhile (\<lambda>h. \<not> Id' s vh < Id' s h) (apiHandlers s) @
     vh # dropWhile (\<lambda>h. \<not> Id' s vh < Id' s h) (apiHandlers s)"
proof -
  assume srt: "sorted (map (Id' s) (apiHandlers s))"
  let ?s' = "s\<lparr>apiHandlerMap := (apiHandlerMap s)(Id' s vh \<mapsto> vh)\<rparr>"
  have same: "Id' ?s' = Id' s" "apiHandlers ?s' = apiHandlers s"
    by (simp_all add: Id'_def fun_eq_iff)
  have lst: "apiHandlers (setApiHandler vh s) =
     takeWhile (\<lambda>h. \<not> Id' s vh < Id' s h) (apiHandlers s) @
     vh # dropWhile (\<lambda>h. \<not> Id' s vh < Id' s h) (apiHandlers s)"
    using setApiHandler_loop_eq [of 0 ?s' vh] same
    by (simp add: setApiHandler_def Let_def)
  have "Id' (setApiHandler vh s) = Id' s"
    by (simp add: setApiHandler_def Let_def Id'_def fun_eq_iff)
  then show ?thesis
    using lst sorted_insert_before_greater [OF srt, of vh] by simp
qed

theorem setApiHandler_keeps_order_witness:
  "sorted (map (Id' three_objects) (apiHandlers three_objects)) \<and>
   sorted (map (Id' (setApiHandler 2 three_objects)) (apiHandlers (setApiHandler 2 three_objects))) \<and>
   apiHandlers (setApiHandler 2 three_objects) = [0, 2, 1]"
proof -
  have h: "sorted (map (Id' three_objects) (apiHandlers three_objects))"
    by (simp add: three_objects_def Id'_def blank_def)
  have l: "takeWhile (\<lambda>h. \<not> Id' three_objects 2 < Id' three_objects h) (apiHandlers three_objects) @
      2 # dropWhile (\<lambda>h. \<not> Id' three_objects 2 < Id' three_objects h) (apiHandlers three_objects) =
      [0, 2, 1]"
    by (simp add: three_objects_def Id'_def blank_def)
  note r = setApiHandler_keeps_order [OF h, of 2]
  from r have r1: "sorted (map (Id' (setApiHandler 2 three_objects))
      (apiHandlers (setApiHandler 2 three_objects)))"
    by (rule conjunct1)
  from r l have r2: "apiHandlers (setApiHandler 2 three_objects) = [0, 2, 1]"
    by (simp only:)
  show ?thesis
    using h r1 r2 by (intro conjI)
qed

subsection \<open>Prefix decomposition\<close>

lemma occurs_at_Cons:
  "occurs_at substr (c # cs) (Suc j) = occurs_at substr cs j"
  by (simp add: occurs_at_def)

lemma occurs_at_0:
  "substr \<noteq> [] \<Longrightarrow> occurs_at substr s 0 = (take (length substr) s = substr)"
  by (auto simp: occurs_at_def) (metis length_take min_def nat_le_linear take_all)

lemma strings_Index_None:
  "substr \<noteq> [] \<Longrightarrow> strings_Index s substr = None \<Longrightarrow> \<not> occurs_at substr s j"
proof (induction s arbitrary: j)
  case Nil
  then show ?case by (simp add: occurs_at_def)
next
  case (Cons c cs)
  show ?case
  proof (cases j)
    case 0
    with Cons.prems show ?thesis
      by (simp add: occurs_at_0 split: if_splits)
  next
    case (Suc k)
    with Cons show ?thesis
      by (simp add: occurs_at_Cons split: if_splits)
  qed
qed

lemma strings_Index_Some:
  "substr \<noteq> [] \<Longrightarrow> strings_Index s substr = Some m \<Longrightarrow>
   occurs_at substr s m \<and> (\<forall>j<m. \<not> occurs_at substr s j)"
proof (induction s arbitrary: m)
  case Nil
  then show ?case by simp
next
  case (Cons c cs)
  show ?case
  proof (cases "take (length substr) (c # cs) = substr")
    case True
    with Cons.prems show ?thesis by (simp add: occurs_at_0)
  next
    case False
    with Cons.prems obtain k where k: "strings_Index cs substr = Some k" "m = Suc k"
      by auto
    from Cons.IH [OF Cons.prems(1) k(1)]
    have ih: "occurs_at substr cs k" "\<forall>j<k. \<not> occurs_at substr cs j" by simp_all
    have "\<not> occurs_at substr (c # cs) j" if "j < m" for j
    proof (cases j)
      case 0
      with False Cons.prems(1) show ?thesis by (simp add: occurs_at_0)
    next
      case (Suc i)
      with that k ih show ?thesis by (simp add: occurs_at_Cons)
    qed
    with ih k show ?thesis by (simp add: occurs_at_Cons)
  qed
qed

lemma strings_Index_le:
  "substr \<noteq> [] \<Longrightarrow> strings_Index s substr = Some m \<Longrightarrow> m + length substr \<le> length s"
  using strings_Index_Some [of substr s m] by (simp add: occurs_at_def)

lemma strings_Split_nonempty: "strings_Split s (c # cs) \<noteq> []"
  by (subst strings_Split.simps(1)) (simp split: option.splits)

lemma strings_Split_Join:
  "strings_Join (strings_Split s (c # cs)) (c # cs) = s"
proof (induction s "c # cs" rule: strings_Split.induct)
  case (1 s)
  show ?case
  proof (cases "strings_Index s (c # cs)")
    case None
    then show ?thesis by (simp add: strings_Split.simps(1))
  next
    case (Some m)
    let ?rest = "strings_Split (drop (m + length (c # cs)) s) (c # cs)"
    have ih: "strings_Join ?rest (c # cs) = drop (m + length (c # cs)) s"
      using "1.hyps" [OF Some] .
    obtain r rs where r: "?rest = r # rs"
      by (cases ?rest) (simp_all add: strings_Split.simps(1) [of _ c cs] split: option.splits)
    have occ: "occurs_at (c # cs) s m"
      using strings_Index_Some [OF _ Some] by simp
    then have "s = take m s @ (c # cs) @ drop (m + length (c # cs)) s"
      by (metis add.commute append_take_drop_id drop_drop occurs_at_def)
    then show ?thesis
      using Some r ih by (simp add: strings_Split.simps(1) [of s c cs])
  qed
qed

lemma strings_Split_hd:
  "strings_Split s (c # cs) =
     (case strings_Index s (c # cs) of None \<Rightarrow> s | Some m \<Rightarrow> take m s) #
     tl (strings_Split s (c # cs))"
  by (simp add: strings_Split.simps(1) [of s c cs] split: option.splits)

lemma strings_Split_tl_Nil:
  "tl (strings_Split s (c # cs)) = [] \<longleftrightarrow> strings_Index s (c # cs) = None"
  by (simp add: strings_Split.simps(1) [of s c cs] strings_Split_nonempty split: option.splits)

lemma strings_Index_char:
  "strings_Index s [c] =
     (if c \<in> set s then Some (length (takeWhile (\<lambda>x. x \<noteq> c) s)) else None)"
  by (induction s) auto

lemma strings_Split_char_hd:
  "hd (strings_Split s [c]) = takeWhile (\<lambda>x. x \<noteq> c) s"
proof (cases "c \<in> set s")
  case True
  then show ?thesis
    by (simp add: strings_Split.simps(1) [of s c "[]"] strings_Index_char
          takeWhile_eq_take [symmetric])
next
  case False
  then have tw: "takeWhile (\<lambda>x. x \<noteq> c) s = s"
    by (auto simp: takeWhile_eq_all_conv)
  show ?thesis
    using False by (simp add: strings_Split.simps(1) [of s c "[]"] strings_Index_char tw)
qed

lemma strings_Split_char_elements:
  "e \<in> set (strings_Split s [c]) \<Longrightarrow> c \<notin> set e"
proof (induction s "[c]" arbitrary: e rule: strings_Split.induct)
  case (1 s)
  show ?case
  proof (cases "strings_Index s [c]")
    case None
    with "1.prems" show ?thesis
      by (simp add: strings_Split.simps(1) [of s c "[]"] strings_Index_char split: if_splits)
  next
    case (Some m)
    then have m: "m = length (takeWhile (\<lambda>x. x \<noteq> c) s)"
      by (simp add: strings_Index_char split: if_splits)
    from "1.prems" Some have "e = take m s \<or> e \<in> set (strings_Split (drop (m + length [c]) s) [c])"
      by (simp add: strings_Split.simps(1) [of s c "[]"])
    then show ?thesis
    proof
      assume "e = take m s"
      then have "e = takeWhile (\<lambda>x. x \<noteq> c) s"
        using m by (simp add: takeWhile_eq_take [symmetric])
      then show ?thesis by (auto dest: set_takeWhileD)
    next
      assume "e \<in> set (strings_Split (drop (m + length [c]) s) [c])"
      then show ?thesis using "1.hyps" [OF Some] by simp
    qed
  qed
qed

lemma clean_elements_rooted:
  "\<forall>e\<in>set out. clean_element e \<Longrightarrow> \<forall>e\<in>set es. CHR ''/'' \<notin> set e \<Longrightarrow>
   \<forall>e\<in>set (clean_elements True out es). clean_element e"
proof (induction es arbitrary: out)
  case Nil
  then show ?case by simp
next
  case (Cons e es)
  from Cons.prems(2) have es: "\<forall>e\<in>set es. CHR ''/'' \<notin> set e" and e: "CHR ''/'' \<notin> set e"
    by simp_all
  consider (skip) "e = [] \<or> e = ''.''"
    | (up) "\<not> (e = [] \<or> e = ''.'')" "e = ''..''" "out \<noteq> [] \<and> last out \<noteq> ''..''"
    | (root) "\<not> (e = [] \<or> e = ''.'')" "e = ''..''" "\<not> (out \<noteq> [] \<and> last out \<noteq> ''..'')"
    | (keep) "\<not> (e = [] \<or> e = ''.'')" "e \<noteq> ''..''"
    by blast
  then show ?case
  proof cases
    case skip
    then have "clean_elements True out (e # es) = clean_elements True out es"
      by auto
    then show ?thesis using Cons.IH [OF Cons.prems(1) es] by simp
  next
    case up
    have "\<forall>e\<in>set (butlast out). clean_element e"
      using Cons.prems(1) by (auto dest: in_set_butlastD)
    from Cons.IH [OF this es] up show ?thesis by simp
  next
    case root
    then have "clean_elements True out (e # es) = clean_elements True out es"
      by auto
    then show ?thesis using Cons.IH [OF Cons.prems(1) es] by simp
  next
    case keep
    have "\<forall>x\<in>set (out @ [e]). clean_element x"
      using Cons.prems(1) keep e by (auto simp: clean_element_def)
    from Cons.IH [OF this es] keep show ?thesis by simp
  qed
qed

lemma path_Clean_rooted:
  assumes "p \<noteq> []" "hd p = CHR ''/''"
  shows "\<exists>es. path_Clean p = ''/'' @ strings_Join es ''/'' \<and> (\<forall>e\<in>set es. clean_element e)"
proof -
  let ?es = "clean_elements True [] (strings_Split p ''/'')"
  have "\<forall>e\<in>set ?es. clean_element e"
    by (rule clean_elements_rooted) (auto dest: strings_Split_char_elements)
  moreover have "path_Clean p = ''/'' @ strings_Join ?es ''/''"
    using assms by (simp add: path_Clean_def)
  ultimately show ?thesis by blast
qed

lemma path_Join_root:
  "path_Join [''/'', raw] \<noteq> [] \<and> hd (path_Join [''/'', raw]) = CHR ''/''"
proof -
  have "path_Join [''/'', raw] = path_Clean ''/'' \<or>
        path_Join [''/'', raw] = path_Clean (''/'' @ ''/'' @ raw)"
    by (simp add: path_Join_def)
  moreover have "path_Clean (CHR ''/'' # q) \<noteq> [] \<and> hd (path_Clean (CHR ''/'' # q)) = CHR ''/''" for q
    by (simp add: path_Clean_def Let_def)
  ultimately show ?thesis
    by (elim disjE) simp_all
qed

lemma creatPrefix_eq:
  "creatPrefix raw =
     (let cleanPrefix = takeWhile (\<lambda>c. c \<noteq> CHR ''?'') (path_Clean (path_Join [''/'', raw]))
      in Some (cleanPrefix,
               (case strings_Index cleanPrefix ''/:'' of None \<Rightarrow> cleanPrefix
                | Some m \<Rightarrow> take m cleanPrefix),
               (case strings_Index cleanPrefix ''/:'' of None \<Rightarrow> []
                | Some m \<Rightarrow> drop m cleanPrefix)))"
proof -
  let ?cleaned = "path_Clean (path_Join [''/'', raw])"
  let ?cp = "takeWhile (\<lambda>c. c \<noteq> CHR ''?'') ?cleaned"
  let ?pp = "case strings_Index ?cp ''/:'' of None \<Rightarrow> ?cp | Some m \<Rightarrow> take m ?cp"
  obtain q where q: "strings_Split ?cleaned ''?'' = ?cp # q"
    using strings_Split_char_hd [of ?cleaned "CHR ''?''"] strings_Split_nonempty [of ?cleaned "CHR ''?''" "[]"]
    by (cases "strings_Split ?cleaned ''?''") simp_all
  define rest where "rest = tl (strings_Split ?cp ''/:'')"
  have sp: "strings_Split ?cp ''/:'' = ?pp # rest"
    unfolding rest_def by (rule strings_Split_hd)
  have rn: "(rest = []) = (strings_Index ?cp ''/:'' = None)"
    unfolding rest_def by (rule strings_Split_tl_Nil)
  have cr: "creatPrefix raw =
      Some (?cp, ?pp, if rest \<noteq> [] then ''/:'' @ strings_Join rest ''/:'' else [])"
    by (simp add: creatPrefix_def q sp)
  show ?thesis
  proof (cases "strings_Index ?cp ''/:''")
    case None
    then have "rest = []" using rn by simp
    with cr None show ?thesis by (simp add: Let_def)
  next
    case (Some m)
    then have ne: "rest \<noteq> []" using rn by simp
    then obtain r rs where r: "rest = r # rs" by (cases rest) simp_all
    have "strings_Join (?pp # rest) ''/:'' = ?cp"
      using strings_Split_Join [of ?cp "CHR ''/''" "'':''"] sp by simp
    then have "take m ?cp @ ''/:'' @ strings_Join rest ''/:'' = take m ?cp @ drop m ?cp"
      using Some r by simp
    then have "''/:'' @ strings_Join rest ''/:'' = drop m ?cp"
      by (simp only: same_append_eq)
    with cr Some ne show ?thesis by (simp add: Let_def)
  qed
qed

text \<open>
  Claim C6. For every raw prefix, \<open>creatPrefix\<close> returns. The prefix joined under the
  root and cleaned is a slash followed by path elements separated by single slashes,
  none of them empty, \<open>.\<close> or \<open>..\<close>; \<open>cleanPrefix\<close> is that string up to its first
  \<open>?\<close>; \<open>prefixPath\<close> followed by \<open>prefixParam\<close> is \<open>cleanPrefix\<close>; when \<open>/:\<close> does
  not occur in \<open>cleanPrefix\<close>, \<open>prefixParam\<close> is empty and \<open>prefixPath\<close> is all of
  \<open>cleanPrefix\<close>; otherwise \<open>prefixPath\<close> is what stands before the first \<open>/:\<close> and
  \<open>prefixParam\<close> is everything from it onward.
\<close>

theorem creatPrefix_decomposes:
  "\<exists>cleaned es cleanPrefix prefixPath prefixParam.
     cleaned = path_Clean (path_Join [''/'', raw]) \<and>
     cleaned = ''/'' @ strings_Join es ''/'' \<and> (\<forall>e\<in>set es. clean_element e) \<and>
     creatPrefix raw = Some (cleanPrefix, prefixPath, prefixParam) \<and>
     cleanPrefix = takeWhile (\<lambda>c. c \<noteq> CHR ''?'') cleaned \<and>
     prefixPath @ prefixParam = cleanPrefix \<and>
     ((prefixParam = [] \<and> prefixPath = cleanPrefix \<and> (\<forall>j. \<not> occurs_at ''/:'' cleanPrefix j)) \<or>
      (\<exists>m. occurs_at ''/:'' cleanPrefix m \<and> (\<forall>j<m. \<not> occurs_at ''/:'' cleanPrefix j) \<and>
           prefixPath = take m cleanPrefix \<and> prefixParam = drop m cleanPrefix))"
proof -
  let ?cleaned = "path_Clean (path_Join [''/'', raw])"
  let ?cp = "takeWhile (\<lambda>c. c \<noteq> CHR ''?'') ?cleaned"
  obtain es where es: "?cleaned = ''/'' @ strings_Join es ''/''" "\<forall>e\<in>set es. clean_element e"
    using path_Clean_rooted [of "path_Join [''/'', raw]"] path_Join_root [of raw] by blast
  show ?thesis
  proof (cases "strings_Index ?cp ''/:''")
    case None
    then have "\<forall>j. \<not> occurs_at ''/:'' ?cp j"
      using strings_Index_None [of "''/:''" ?cp] by simp
    moreover have "creatPrefix raw = Some (?cp, ?cp, [])"
      using None by (simp add: creatPrefix_eq Let_def)
    ultimately show ?thesis using es by fastforce
  next
    case (Some m)
    then have "occurs_at ''/:'' ?cp m \<and> (\<forall>j<m. \<not> occurs_at ''/:'' ?cp j)"
      using strings_Index_Some [of "''/:''" ?cp m] by simp
    moreover have "creatPrefix raw = Some (?cp, take m ?cp, drop m ?cp)"
      using Some by (simp add: creatPrefix_eq Let_def)
    moreover have "take m ?cp @ drop m ?cp = ?cp" by simp
    ultimately show ?thesis using es by blast
  qed
qed

text \<open>The two examples of the claim.\<close>

theorem creatPrefix_decomposes_witness:
  "creatPrefix ''/users/:id/posts'' = Some (''/users/:id/posts'', ''/users'', ''/:id/posts'') \<and>
   creatPrefix ''users'' = Some (''/users'', ''/users'', [])"
  using creatPrefix_decomposes [of "''users''"] creatPrefix_decomposes [of "''/users/:id/posts''"]
  by (simp add: creatPrefix_def path_Clean_def path_Join_def strings_Split.simps(1))

subsection \<open>The accessors of VirtHandler\<close>

lemma slice_elems_length:
  "off sl + len sl \<le> length (h (arr sl)) \<Longrightarrow> length (slice_elems h sl) = len sl"
  by (simp add: slice_elems_def)

lemma slice_elems_other:
  "arr sl \<noteq> a \<Longrightarrow> slice_elems (h(a := xs)) sl = slice_elems h sl"
  by (simp add: slice_elems_def)

lemma slice_elems_update:
  "off sl + len sl \<le> length (h (arr sl)) \<Longrightarrow> i < len sl \<Longrightarrow>
   slice_elems (h(arr sl := (h (arr sl))[off sl + i := x])) sl = (slice_elems h sl)[i := x]"
  by (simp add: slice_elems_def take_update_swap drop_update_swap)

lemma Methods_copy:
  assumes "valid_strings s (VirtHandler.methods (virt_objects s v))"
  shows "\<exists>ms s1. Methods v s = (ms, s1) \<and>
     arr ms = string_arrays_used s \<and> off ms = 0 \<and>
     len ms = len (VirtHandler.methods (virt_objects s v)) \<and>
     s1 = s\<lparr>string_arrays := (string_arrays s)
              (string_arrays_used s := slice_elems (string_arrays s) (VirtHandler.methods (virt_objects s v))),
            string_arrays_used := Suc (string_arrays_used s)\<rparr>"
proof -
  let ?src = "VirtHandler.methods (virt_objects s v)"
  have ne: "arr ?src \<noteq> string_arrays_used s"
    using assms by (auto simp: valid_strings_def)
  have ln: "length (slice_elems (string_arrays s) ?src) = len ?src"
    using assms by (simp add: valid_strings_def slice_elems_length)
  show ?thesis
    using ne ln
    by (simp add: Methods_def make_strings_def copy_strings_def Let_def slice_elems_other)
qed

lemma Params_loop_copies:
  "arr p \<noteq> arr src \<Longrightarrow> off p = 0 \<Longrightarrow> length (param_arrays s (arr p)) = len p \<Longrightarrow>
   len p = len src \<Longrightarrow> off src + len src \<le> length (param_arrays s (arr src)) \<Longrightarrow>
   key \<le> len src \<Longrightarrow>
   Params_loop p src key s =
     Some (s\<lparr>param_arrays := (param_arrays s)
              (arr p := take key (param_arrays s (arr p)) @
                        drop key (slice_elems (param_arrays s) src))\<rparr>)"
proof (induction p src key s rule: Params_loop.induct)
  case (1 p src key s)
  let ?a = "param_arrays s (arr p)"
  let ?es = "slice_elems (param_arrays s) src"
  have les: "length ?es = len src"
    using "1.prems" by (simp add: slice_elems_length)
  show ?case
  proof (cases "key < len src")
    case False
    with "1.prems" les have "key = len src" "take key ?a = ?a" "drop key ?es = []"
      by simp_all
    then have "(param_arrays s)(arr p := take key ?a @ drop key ?es) = param_arrays s"
      by (simp add: fun_eq_iff)
    with False show ?thesis
      by (subst Params_loop.simps) simp
  next
    case True
    let ?x = "param_arrays s (arr src) ! (off src + key)"
    define s1 where "s1 = s\<lparr>param_arrays := (param_arrays s)(arr p := ?a[off p + key := ?x])\<rparr>"
    have st: "store_param p key ?x s = Some s1"
      using True "1.prems" by (simp add: store_param_def s1_def)
    have x: "?x = ?es ! key"
      using True "1.prems" by (simp add: slice_elems_def)
    have a1: "param_arrays s1 (arr p) = ?a[key := ?x]"
      using "1.prems" by (simp add: s1_def)
    have a2: "param_arrays s1 (arr src) = param_arrays s (arr src)"
      using "1.prems" by (simp add: s1_def)
    have e1: "slice_elems (param_arrays s1) src = ?es"
      using a2 by (simp add: slice_elems_def)
    have ih: "Params_loop p src (key + 1) s1 =
       Some (s1\<lparr>param_arrays := (param_arrays s1)
              (arr p := take (key + 1) (param_arrays s1 (arr p)) @
                        drop (key + 1) (slice_elems (param_arrays s1) src))\<rparr>)"
    proof (rule "1.IH" [OF True st])
      show "arr p \<noteq> arr src" "off p = 0" "len p = len src" by (fact "1.prems")+
      show "length (param_arrays s1 (arr p)) = len p"
        using a1 "1.prems" by simp
      show "off src + len src \<le> length (param_arrays s1 (arr src))"
        using a2 "1.prems" by simp
      show "key + 1 \<le> len src" using True by simp
    qed
    have e2: "take (key + 1) (param_arrays s1 (arr p)) = take key ?a @ [?x]"
      using True "1.prems" a1 by (simp add: take_Suc_conv_app_nth)
    have e3: "[?x] @ drop (key + 1) ?es = drop key ?es"
      using True les x by (simp add: Cons_nth_drop_Suc)
    have e4: "take (key + 1) (param_arrays s1 (arr p)) @ drop (key + 1) (slice_elems (param_arrays s1) src)
          = take key ?a @ drop key ?es"
      using e1 e2 e3 by (metis append.assoc)
    have e5: "s1\<lparr>param_arrays := (param_arrays s1)(arr p := ys)\<rparr> =
              s\<lparr>param_arrays := (param_arrays s)(arr p := ys)\<rparr>" for ys
      by (simp add: s1_def)
    have "Params_loop p src key s = Params_loop p src (key + 1) s1"
      using True st by (subst Params_loop.simps) simp
    then show ?thesis
      unfolding ih e4 e5 .
  qed
qed

lemma Params_copy:
  assumes "valid_params s (params (virt_objects s v))"
  shows "\<exists>p s1. Params' v s = Some (p, s1) \<and>
     arr p = param_arrays_used s \<and> off p = 0 \<and>
     len p = len (params (virt_objects s v)) \<and>
     s1 = s\<lparr>param_arrays := (param_arrays s)
              (param_arrays_used s := slice_elems (param_arrays s) (params (virt_objects s v))),
            param_arrays_used := Suc (param_arrays_used s)\<rparr>"
proof -
  let ?src = "params (virt_objects s v)"
  let ?p = "\<lparr>arr = param_arrays_used s, off = 0, len = len ?src\<rparr>"
  let ?s' = "s\<lparr>param_arrays := (param_arrays s)(param_arrays_used s := replicate (len ?src) zero_Param),
        param_arrays_used := Suc (param_arrays_used s)\<rparr>"
  have ne: "arr ?src \<noteq> param_arrays_used s"
    using assms by (auto simp: valid_params_def)
  have "Params_loop ?p ?src 0 ?s' =
     Some (?s'\<lparr>param_arrays := (param_arrays ?s')
              (arr ?p := take 0 (param_arrays ?s' (arr ?p)) @
                        drop 0 (slice_elems (param_arrays ?s') ?src))\<rparr>)"
    by (rule Params_loop_copies) (use assms ne in \<open>simp_all add: valid_params_def\<close>)
  then show ?thesis
    using ne by (simp add: Params'_def make_params_def slice_elems_other)
qed

lemma Methods_is_copy:
  assumes "valid_strings s (VirtHandler.methods (virt_objects s v))"
  shows "\<exists>ms s1. Methods v s = (ms, s1) \<and>
     slice_elems (string_arrays s1) ms =
       slice_elems (string_arrays s) (VirtHandler.methods (virt_objects s v)) \<and>
     arr ms \<noteq> arr (VirtHandler.methods (virt_objects s v)) \<and>
     virt_objects s1 = virt_objects s \<and>
     (\<forall>i x. i < len ms \<longrightarrow>
        (\<exists>s2. store_string ms i x s1 = Some s2 \<and> virt_objects s2 = virt_objects s \<and>
              slice_elems (string_arrays s2) ms = (slice_elems (string_arrays s1) ms)[i := x] \<and>
              slice_elems (string_arrays s2) (VirtHandler.methods (virt_objects s v)) =
                slice_elems (string_arrays s) (VirtHandler.methods (virt_objects s v)) \<and>
              (\<forall>a<string_arrays_used s. string_arrays s2 a = string_arrays s a)))"
proof -
  let ?src = "VirtHandler.methods (virt_objects s v)"
  let ?es = "slice_elems (string_arrays s) ?src"
  obtain ms s1 where m: "Methods v s = (ms, s1)" "arr ms = string_arrays_used s" "off ms = 0"
      "len ms = len ?src"
      "s1 = s\<lparr>string_arrays := (string_arrays s)(string_arrays_used s := ?es),
              string_arrays_used := Suc (string_arrays_used s)\<rparr>"
    using Methods_copy [OF assms] by blast
  have ne: "arr ?src \<noteq> string_arrays_used s"
    using assms by (auto simp: valid_strings_def)
  have ln: "length ?es = len ?src"
    using assms by (simp add: valid_strings_def slice_elems_length)
  have el: "slice_elems (string_arrays s1) ms = ?es"
    using m ln by (simp add: slice_elems_def)
  have mut: "\<exists>s2. store_string ms i x s1 = Some s2 \<and> virt_objects s2 = virt_objects s \<and>
              slice_elems (string_arrays s2) ms = (slice_elems (string_arrays s1) ms)[i := x] \<and>
              slice_elems (string_arrays s2) ?src = ?es \<and>
              (\<forall>a<string_arrays_used s. string_arrays s2 a = string_arrays s a)"
    if "i < len ms" for i x
    using that m ln ne el by (simp add: store_string_def slice_elems_def)
  show ?thesis
    using m(1) el ne m(2) m(5) mut by (intro exI [of _ ms] exI [of _ s1]) simp
qed

lemma Params_is_copy:
  assumes "valid_params s (params (virt_objects s v))"
  shows "\<exists>p s1. Params' v s = Some (p, s1) \<and>
     slice_elems (param_arrays s1) p = slice_elems (param_arrays s) (params (virt_objects s v)) \<and>
     arr p \<noteq> arr (params (virt_objects s v)) \<and>
     virt_objects s1 = virt_objects s \<and>
     (\<forall>i x. i < len p \<longrightarrow>
        (\<exists>s2. store_param p i x s1 = Some s2 \<and> virt_objects s2 = virt_objects s \<and>
              slice_elems (param_arrays s2) p = (slice_elems (param_arrays s1) p)[i := x] \<and>
              slice_elems (param_arrays s2) (params (virt_objects s v)) =
                slice_elems (param_arrays s) (params (virt_objects s v)) \<and>
              (\<forall>a<param_arrays_used s. param_arrays s2 a = param_arrays s a)))"
proof -
  let ?src = "params (virt_objects s v)"
  let ?es = "slice_elems (param_arrays s) ?src"
  obtain p s1 where m: "Params' v s = Some (p, s1)" "arr p = param_arrays_used s" "off p = 0"
      "len p = len ?src"
      "s1 = s\<lparr>param_arrays := (param_arrays s)(param_arrays_used s := ?es),
              param_arrays_used := Suc (param_arrays_used s)\<rparr>"
    using Params_copy [OF assms] by blast
  have ne: "arr ?src \<noteq> param_arrays_used s"
    using assms by (auto simp: valid_params_def)
  have ln: "length ?es = len ?src"
    using assms by (simp add: valid_params_def slice_elems_length)
  have el: "slice_elems (param_arrays s1) p = ?es"
    using m ln by (simp add: slice_elems_def)
  have mut: "\<exists>s2. store_param p i x s1 = Some s2 \<and> virt_objects s2 = virt_objects s \<and>
              slice_elems (param_arrays s2) p = (slice_elems (param_arrays s1) p)[i := x] \<and>
              slice_elems (param_arrays s2) ?src = ?es \<and>
              (\<forall>a<param_arrays_used s. param_arrays s2 a = param_arrays s a)"
    if "i < len p" for i x
    using that m ln ne el by (simp add: store_param_def slice_elems_def)
  show ?thesis
    using m(1) el ne m(2) m(5) mut by (intro exI [of _ p] exI [of _ s1]) simp
qed

lemma Produces_is_shared:
  assumes "valid_strings s (produces (virt_objects s v))"
  shows "Produces v s = produces (virt_objects s v) \<and>
     (\<forall>i x. i < len (produces (virt_objects s v)) \<longrightarrow>
        (\<exists>s2. store_string (Produces v s) i x s = Some s2 \<and> virt_objects s2 = virt_objects s \<and>
              slice_elems (string_arrays s2) (produces (virt_objects s2 v)) =
                (slice_elems (string_arrays s) (produces (virt_objects s v)))[i := x]))"
  using assms
  by (simp add: Produces_def store_string_def valid_strings_def slice_elems_update)

text \<open>
  Claim C10. For a \<open>VirtHandler\<close> whose slices lie inside arrays that exist,
  \<open>Methods()\<close> and \<open>Params()\<close> return a slice with the elements of the stored
  \<open>methods\<close> and \<open>params\<close> on a new array, different from the stored slice's array:
  an assignment to any element of the returned slice leaves the descriptor, the
  elements of its stored slice and every array that existed before the call as they
  were. \<open>Produces()\<close> returns the stored slice itself: an assignment to an element of
  the returned slice changes that element of the descriptor's \<open>produces\<close>.
\<close>

theorem accessors_copy_or_share:
  assumes "valid_strings s (VirtHandler.methods (virt_objects s v))"
    and "valid_params s (params (virt_objects s v))"
    and "valid_strings s (produces (virt_objects s v))"
  shows
   "(\<exists>ms s1. Methods v s = (ms, s1) \<and>
       slice_elems (string_arrays s1) ms =
         slice_elems (string_arrays s) (VirtHandler.methods (virt_objects s v)) \<and>
       arr ms \<noteq> arr (VirtHandler.methods (virt_objects s v)) \<and>
       virt_objects s1 = virt_objects s \<and>
       (\<forall>i x. i < len ms \<longrightarrow>
          (\<exists>s2. store_string ms i x s1 = Some s2 \<and> virt_objects s2 = virt_objects s \<and>
                slice_elems (string_arrays s2) ms = (slice_elems (string_arrays s1) ms)[i := x] \<and>
                slice_elems (string_arrays s2) (VirtHandler.methods (virt_objects s v)) =
                  slice_elems (string_arrays s) (VirtHandler.methods (virt_objects s v)) \<and>
                (\<forall>a<string_arrays_used s. string_arrays s2 a = string_arrays s a)))) \<and>
    (\<exists>p s1. Params' v s = Some (p, s1) \<and>
       slice_elems (param_arrays s1) p = slice_elems (param_arrays s) (params (virt_objects s v)) \<and>
       arr p \<noteq> arr (params (virt_objects s v)) \<and>
       virt_objects s1 = virt_objects s \<and>
       (\<forall>i x. i < len p \<longrightarrow>
          (\<exists>s2. store_param p i x s1 = Some s2 \<and> virt_objects s2 = virt_objects s \<and>
                slice_elems (param_arrays s2) p = (slice_elems (param_arrays s1) p)[i := x] \<and>
                slice_elems (param_arrays s2) (params (virt_objects s v)) =
                  slice_elems (param_arrays s) (params (virt_objects s v)) \<and>
                (\<forall>a<param_arrays_used s. param_arrays s2 a = param_arrays s a)))) \<and>
    Produces v s = produces (virt_objects s v) \<and>
    (\<forall>i x. i < len (produces (virt_objects s v)) \<longrightarrow>
       (\<exists>s2. store_string (Produces v s) i x s = Some s2 \<and> virt_objects s2 = virt_objects s \<and>
             slice_elems (string_arrays s2) (produces (virt_objects s2 v)) =
               (slice_elems (string_arrays s) (produces (virt_objects s v)))[i := x]))"
  using Methods_is_copy [OF assms(1)] Params_is_copy [OF assms(2)] Produces_is_shared [OF assms(3)]
  by (intro conjI) blast+

text \<open>
  A descriptor with two methods and one produced type: the copy takes the assignment,
  the stored methods keep \<open>GET\<close>; the stored produces do not keep their element.
\<close>

theorem accessors_copy_or_share_witness:
  "valid_strings listing (VirtHandler.methods (virt_objects listing 0)) \<and>
   valid_params listing (params (virt_objects listing 0)) \<and>
   valid_strings listing (produces (virt_objects listing 0)) \<and>
   (case Methods 0 listing of (ms, s1) \<Rightarrow>
      slice_elems (string_arrays s1) ms = [''GET'', ''POST''] \<and> arr ms = 2 \<and>
      (case store_string ms 0 ''PUT'' s1 of
         None \<Rightarrow> False
       | Some s2 \<Rightarrow>
           slice_elems (string_arrays s2) ms = [''PUT'', ''POST''] \<and>
           slice_elems (string_arrays s2) (VirtHandler.methods (virt_objects s2 0)) =
             [''GET'', ''POST''])) \<and>
   (case store_string (Produces 0 listing) 0 ''text/html'' listing of
      None \<Rightarrow> False
    | Some s2 \<Rightarrow> slice_elems (string_arrays s2) (produces (virt_objects s2 0)) = [''text/html''])"
proof -
  have h: "valid_strings listing (VirtHandler.methods (virt_objects listing 0))"
     "valid_params listing (params (virt_objects listing 0))"
     "valid_strings listing (produces (virt_objects listing 0))"
    by (simp_all add: valid_strings_def valid_params_def listing_def)
  show ?thesis
    using h accessors_copy_or_share [OF h]
    by (simp add: listing_def Methods_def make_strings_def copy_strings_def store_string_def
          slice_elems_def Produces_def)
qed

subsection \<open>Identities and registration\<close>

lemma add_brackets_eq: "add_brackets acc ms = acc @ concat (map bracketed ms)"
  by (induction ms arbitrary: acc) (simp_all add: bracketed_def)

lemma initId_eq:
  "initId a = a\<lparr>ApiHandler.id' := operation_identity (Handler a) (suffix a) (Desc a) (Types a)\<rparr>"
  by (cases "Handler a")
     (simp_all add: initId_def operation_identity_def add_brackets_eq bracketed_def)

lemma handleWareUri_eq: "handleWareUri hw ms pre = prefix_identity hw pre ms"
  by (cases hw) (simp_all add: handleWareUri_def prefix_identity_def add_brackets_eq bracketed_def)

lemma standard_types_final: "remdups_adj (sort standard_types) = standard_types"
  using standard_types_sorted standard_types_distinct by (simp add: remdups_adj_distinct)

lemma initTypes_final:
  "\<exists>ms. initTypes G a = Some (a\<lparr>Types := final_types a, ApiHandler.methods := ms\<rparr>)"
proof (cases "Types a = []")
  case True
  then show ?thesis
    by (intro exI [of _ "ApiHandler.methods a"])
       (simp add: initTypes_empty final_types_def declared_or_default_def standard_types_final)
next
  case False
  then show ?thesis
    by (intro exI [of _ "ApiHandler.methods a @ map G (remdups_adj (sort (Types a)))"])
       (simp add: initTypes_nonempty final_types_def declared_or_default_def)
qed

lemma init_fresh:
  assumes "\<not> inited (objects s p)"
  shows "\<exists>ms. init G p s =
     (let s' = s\<lparr>objects := (objects s)(p := initialised (objects s p) ms)\<rparr>
      in case apiHandlerMap s (registered_id (objects s p)) of
           Some h \<Rightarrow> Some (Some h, s')
         | None \<Rightarrow> Some (Some p, setApiHandler p s'))"
proof -
  obtain ms where ms: "initTypes G (objects s p) =
      Some ((objects s p)\<lparr>Types := final_types (objects s p), ApiHandler.methods := ms\<rparr>)"
    using initTypes_final by blast
  show ?thesis
    using assms ms
    by (intro exI [of _ ms])
       (simp add: init_def initParamsAndSuffix_eq initId_eq Let_def getApiHandler_def
          Id'_def initialised_def registered_id_def split: option.splits)
qed

lemma setApiHandler_apiHandlers:
  "apiHandlers (setApiHandler vh s) =
     takeWhile (\<lambda>h. \<not> Id' s vh < Id' s h) (apiHandlers s) @
     vh # dropWhile (\<lambda>h. \<not> Id' s vh < Id' s h) (apiHandlers s)"
proof -
  let ?s' = "s\<lparr>apiHandlerMap := (apiHandlerMap s)(Id' s vh \<mapsto> vh)\<rparr>"
  have "Id' ?s' = Id' s" "apiHandlers ?s' = apiHandlers s"
    by (simp_all add: Id'_def fun_eq_iff)
  then show ?thesis
    using setApiHandler_loop_eq [of 0 ?s' vh] by (simp add: setApiHandler_def Let_def)
qed

lemma setApiHandler_length:
  "length (apiHandlers (setApiHandler vh s)) = Suc (length (apiHandlers s))"
proof -
  have "length (takeWhile P xs @ vh # dropWhile P xs) = Suc (length xs)" for P and xs :: "addr list"
    by (metis length_Cons length_append add_Suc_right takeWhile_dropWhile_id)
  then show ?thesis by (simp only: setApiHandler_apiHandlers)
qed

lemma setApiHandler_map:
  "apiHandlerMap (setApiHandler vh s) = (apiHandlerMap s)(Id' s vh \<mapsto> vh)"
  by (simp add: setApiHandler_def Let_def)

lemma setApiHandler_objects:
  "objects (setApiHandler vh s) = objects s \<and> allocated (setApiHandler vh s) = allocated s"
  by (simp add: setApiHandler_def Let_def)

lemma Reg_inited:
  "inited a \<Longrightarrow>
   Reg G a s = Some (apiHandlerMap s (registered_id a),
                     s\<lparr>objects := (objects s)(allocated s := a), allocated := Suc (allocated s)\<rparr>)"
  by (simp add: Reg_def init_def getApiHandler_def Id'_def registered_id_def)

lemma Reg_fresh:
  assumes "\<not> inited a"
  shows "\<exists>ms. Reg G a s =
     (let s' = s\<lparr>allocated := Suc (allocated s),
                  objects := (objects s)(allocated s := initialised a ms)\<rparr>
      in case apiHandlerMap s (registered_id a) of
           Some h \<Rightarrow> Some (Some h, s')
         | None \<Rightarrow> Some (Some (allocated s), setApiHandler (allocated s) s'))"
proof -
  let ?s0 = "s\<lparr>objects := (objects s)(allocated s := a), allocated := Suc (allocated s)\<rparr>"
  have "\<not> inited (objects ?s0 (allocated s))" using assms by simp
  from init_fresh [OF this, of G] obtain ms where
    "init G (allocated s) ?s0 =
       (let s' = ?s0\<lparr>objects := (objects ?s0)
                       (allocated s := initialised (objects ?s0 (allocated s)) ms)\<rparr>
        in case apiHandlerMap ?s0 (registered_id (objects ?s0 (allocated s))) of
             Some h \<Rightarrow> Some (Some h, s')
           | None \<Rightarrow> Some (Some (allocated s), setApiHandler (allocated s) s'))"
    by blast
  then show ?thesis
    by (intro exI [of _ ms]) (simp add: Reg_def Let_def split: option.splits)
qed

lemma Reg_call:
  "\<exists>r s1. Reg G a s = Some (r, s1) \<and> r = apiHandlerMap s1 (registered_id a) \<and>
     (inited a \<or> r \<noteq> None) \<and>
     (apiHandlerMap s1 = apiHandlerMap s \<and> apiHandlers s1 = apiHandlers s \<or>
      apiHandlerMap s (registered_id a) = None \<and>
      apiHandlerMap s1 = (apiHandlerMap s)(registered_id a \<mapsto> allocated s) \<and>
      length (apiHandlers s1) = Suc (length (apiHandlers s)))"
proof (cases "inited a")
  case True
  then show ?thesis by (simp add: Reg_inited)
next
  case False
  then obtain ms where ms: "Reg G a s =
     (let s' = s\<lparr>allocated := Suc (allocated s),
                  objects := (objects s)(allocated s := initialised a ms)\<rparr>
      in case apiHandlerMap s (registered_id a) of
           Some h \<Rightarrow> Some (Some h, s')
         | None \<Rightarrow> Some (Some (allocated s), setApiHandler (allocated s) s'))"
    using Reg_fresh by blast
  show ?thesis
  proof (cases "apiHandlerMap s (registered_id a)")
    case (Some h)
    with ms show ?thesis by (simp add: Let_def)
  next
    case None
    let ?s' = "s\<lparr>allocated := Suc (allocated s),
                  objects := (objects s)(allocated s := initialised a ms)\<rparr>"
    have k: "Id' ?s' (allocated s) = registered_id a"
      by (simp add: Id'_def initialised_def)
    have "Reg G a s = Some (Some (allocated s), setApiHandler (allocated s) ?s')"
      using ms None by (simp add: Let_def)
    moreover have "apiHandlerMap (setApiHandler (allocated s) ?s') =
        (apiHandlerMap s)(registered_id a \<mapsto> allocated s)"
      using k by (simp add: setApiHandler_map)
    moreover have "length (apiHandlers (setApiHandler (allocated s) ?s')) = Suc (length (apiHandlers s))"
      by (simp add: setApiHandler_length)
    ultimately show ?thesis using None by simp
  qed
qed

lemma Reg_stable:
  assumes "inited a \<or> apiHandlerMap s (registered_id a) \<noteq> None"
  shows "\<exists>s1. Reg G a s = Some (apiHandlerMap s (registered_id a), s1) \<and>
     apiHandlerMap s1 = apiHandlerMap s \<and> apiHandlers s1 = apiHandlers s"
proof (cases "inited a")
  case True
  then show ?thesis by (simp add: Reg_inited)
next
  case False
  with assms obtain h where h: "apiHandlerMap s (registered_id a) = Some h" by auto
  from Reg_fresh [OF False, of G s] h show ?thesis
    by (auto simp: Let_def)
qed

lemma repeat_call_stable:
  assumes step: "\<And>s. I s \<Longrightarrow> \<exists>s'. f s = Some (r, s') \<and> I s'"
  shows "I s \<Longrightarrow> \<exists>s'. repeat_call f n s = Some (replicate n r, s') \<and> I s'"
proof (induction n arbitrary: s)
  case 0
  then show ?case by simp
next
  case (Suc n)
  from step [OF Suc.prems] obtain s1 where s1: "f s = Some (r, s1)" "I s1" by blast
  from Suc.IH [OF s1(2)] obtain s2 where "repeat_call f n s1 = Some (replicate n r, s2)" "I s2"
    by blast
  with s1 show ?case by simp
qed

lemma Reg_repeated:
  "\<exists>r s'. repeat_call (Reg G a) (Suc n) s = Some (replicate (Suc n) r, s') \<and>
     r = apiHandlerMap s' (registered_id a) \<and> (inited a \<or> r \<noteq> None) \<and>
     (apiHandlerMap s' = apiHandlerMap s \<and> apiHandlers s' = apiHandlers s \<or>
      apiHandlerMap s (registered_id a) = None \<and>
      apiHandlerMap s' = (apiHandlerMap s)(registered_id a \<mapsto> allocated s) \<and>
      length (apiHandlers s') = Suc (length (apiHandlers s)))"
proof -
  obtain r s1 where first: "Reg G a s = Some (r, s1)" "r = apiHandlerMap s1 (registered_id a)"
     "inited a \<or> r \<noteq> None"
     "apiHandlerMap s1 = apiHandlerMap s \<and> apiHandlers s1 = apiHandlers s \<or>
      apiHandlerMap s (registered_id a) = None \<and>
      apiHandlerMap s1 = (apiHandlerMap s)(registered_id a \<mapsto> allocated s) \<and>
      length (apiHandlers s1) = Suc (length (apiHandlers s))"
    using Reg_call [of G a s] by blast
  define I where "I = (\<lambda>t :: 'a registry.
      apiHandlerMap t = apiHandlerMap s1 \<and> apiHandlers t = apiHandlers s1)"
  have step: "\<exists>t'. Reg G a t = Some (r, t') \<and> I t'" if "I t" for t
  proof -
    from that have eq: "apiHandlerMap t = apiHandlerMap s1" "apiHandlers t = apiHandlers s1"
      by (simp_all add: I_def)
    have "inited a \<or> apiHandlerMap t (registered_id a) \<noteq> None"
      using first(2,3) eq by auto
    from Reg_stable [OF this, of G] show ?thesis
      using eq first(2) by (auto simp: I_def)
  qed
  have "I s1" by (simp add: I_def)
  from repeat_call_stable [of I "Reg G a" r, OF step this, of n]
  obtain s' where s': "repeat_call (Reg G a) n s1 = Some (replicate n r, s')" "I s'"
    by blast
  have "repeat_call (Reg G a) (Suc n) s = Some (replicate (Suc n) r, s')"
    using first(1) s'(1) by simp
  moreover have "apiHandlerMap s' = apiHandlerMap s1" "apiHandlers s' = apiHandlers s1"
    using s'(2) by (simp_all add: I_def)
  ultimately show ?thesis
    using first(2,3,4) by (intro exI [of _ r] exI [of _ s']) simp
qed

lemma creatPrefix_clean_prefix:
  "\<exists>path param. creatPrefix raw = Some (clean_prefix raw, path, param)"
  by (simp add: creatPrefix_eq clean_prefix_def Let_def)

lemma NewVirtHandler_call:
  "\<exists>r s1. NewVirtHandler hf raw ms d pr pa s = Some (r, s1) \<and>
     r = virtHandlerMap s1 (virt_identity s hf raw ms) \<and> r \<noteq> None \<and>
     VirtHandler.id' (virt_objects s1 (virt_allocated s)) = virt_identity s hf raw ms \<and>
     string_arrays s1 = string_arrays s \<and>
     (virtHandlerMap s1 = virtHandlerMap s \<and> handlerMap s1 = handlerMap s \<or>
      virtHandlerMap s (virt_identity s hf raw ms) = None \<and>
      virtHandlerMap s1 = (virtHandlerMap s)(virt_identity s hf raw ms \<mapsto> virt_allocated s) \<and>
      handlerMap s1 = (handlerMap s)(virt_identity s hf raw ms \<mapsto> hf))"
proof -
  obtain path param where cp: "creatPrefix raw = Some (clean_prefix raw, path, param)"
    using creatPrefix_clean_prefix by blast
  show ?thesis
  proof (cases "virtHandlerMap s (virt_identity s hf raw ms)")
    case None
    with cp show ?thesis
      by (simp add: NewVirtHandler_def Let_def hasVirtHandler_def handleWareUri_eq
            virt_identity_def setVirtHandler_def setHandlerMap_def)
  next
    case (Some h)
    with cp show ?thesis
      by (simp add: NewVirtHandler_def Let_def hasVirtHandler_def handleWareUri_eq
            virt_identity_def)
  qed
qed

lemma NewVirtHandler_stable:
  assumes "virtHandlerMap s (virt_identity s hf raw ms) \<noteq> None"
  shows "\<exists>s1. NewVirtHandler hf raw ms d pr pa s =
           Some (virtHandlerMap s (virt_identity s hf raw ms), s1) \<and>
     virtHandlerMap s1 = virtHandlerMap s \<and> handlerMap s1 = handlerMap s \<and>
     string_arrays s1 = string_arrays s"
proof -
  obtain path param where cp: "creatPrefix raw = Some (clean_prefix raw, path, param)"
    using creatPrefix_clean_prefix by blast
  with assms show ?thesis
    by (simp add: NewVirtHandler_def Let_def hasVirtHandler_def handleWareUri_eq virt_identity_def)
qed

lemma NewVirtHandler_repeated:
  "\<exists>r s'. repeat_call (NewVirtHandler hf raw ms d pr pa) (Suc n) s =
            Some (replicate (Suc n) r, s') \<and>
     r = virtHandlerMap s' (virt_identity s hf raw ms) \<and> r \<noteq> None \<and>
     (virtHandlerMap s' = virtHandlerMap s \<and> handlerMap s' = handlerMap s \<or>
      virtHandlerMap s (virt_identity s hf raw ms) = None \<and>
      virtHandlerMap s' = (virtHandlerMap s)(virt_identity s hf raw ms \<mapsto> virt_allocated s) \<and>
      handlerMap s' = (handlerMap s)(virt_identity s hf raw ms \<mapsto> hf))"
proof -
  let ?k = "virt_identity s hf raw ms"
  obtain r s1 where first: "NewVirtHandler hf raw ms d pr pa s = Some (r, s1)"
     "r = virtHandlerMap s1 ?k" "r \<noteq> None" "string_arrays s1 = string_arrays s"
     "virtHandlerMap s1 = virtHandlerMap s \<and> handlerMap s1 = handlerMap s \<or>
      virtHandlerMap s ?k = None \<and>
      virtHandlerMap s1 = (virtHandlerMap s)(?k \<mapsto> virt_allocated s) \<and>
      handlerMap s1 = (handlerMap s)(?k \<mapsto> hf)"
    using NewVirtHandler_call [of hf raw ms d pr pa s] by blast
  define I where "I = (\<lambda>t :: 'a virt_state.
      virtHandlerMap t = virtHandlerMap s1 \<and> handlerMap t = handlerMap s1 \<and>
      string_arrays t = string_arrays s)"
  have step: "\<exists>t'. NewVirtHandler hf raw ms d pr pa t = Some (r, t') \<and> I t'" if "I t" for t
  proof -
    from that have eq: "virtHandlerMap t = virtHandlerMap s1" "handlerMap t = handlerMap s1"
        "string_arrays t = string_arrays s"
      by (simp_all add: I_def)
    then have k: "virt_identity t hf raw ms = ?k"
      by (simp add: virt_identity_def)
    have "virtHandlerMap t (virt_identity t hf raw ms) \<noteq> None"
      using first(2,3) eq k by simp
    from NewVirtHandler_stable [OF this, of d pr pa] show ?thesis
      using eq k first(2) by (auto simp: I_def)
  qed
  have "I s1" using first(4) by (simp add: I_def)
  from repeat_call_stable [of I "NewVirtHandler hf raw ms d pr pa" r, OF step this, of n]
  obtain s' where s': "repeat_call (NewVirtHandler hf raw ms d pr pa) n s1 = Some (replicate n r, s')"
      "I s'"
    by blast
  have "repeat_call (NewVirtHandler hf raw ms d pr pa) (Suc n) s = Some (replicate (Suc n) r, s')"
    using first(1) s'(1) by simp
  moreover have "virtHandlerMap s' = virtHandlerMap s1" "handlerMap s' = handlerMap s1"
    using s'(2) by (simp_all add: I_def)
  ultimately show ?thesis
    using first(2,3,5) by (intro exI [of _ r] exI [of _ s']) simp
qed

lemma final_types_set:
  assumes "set (declared_or_default a) = set (declared_or_default b)"
  shows "final_types a = final_types b"
proof -
  have "sorted (final_types a) \<and> distinct (final_types a)"
       "sorted (final_types b) \<and> distinct (final_types b)"
    by (simp_all add: final_types_def sorted_distinct_remdups_adj)
  moreover have "set (final_types a) = set (final_types b)"
    using assms by (simp add: final_types_def)
  ultimately show ?thesis
    by (simp add: sorted_distinct_set_unique)
qed

text \<open>
  Registration keeps the list in order: \<open>Reg\<close> changes the list through
  \<open>setApiHandler\<close> only, and the new object it makes is none of the list.
\<close>

lemma Id'_new_object:
  "\<forall>a\<in>set xs. a < allocated s \<Longrightarrow>
   map (Id' (s\<lparr>allocated := n, objects := (objects s)(allocated s := x)\<rparr>)) xs = map (Id' s) xs"
  by (induction xs) (auto simp: Id'_def)

lemma registry_updates_swap:
  "s\<lparr>objects := f, allocated := n\<rparr> = s\<lparr>allocated := n, objects := f\<rparr>"
  by (cases s) simp

lemma Reg_keeps_order:
  assumes ok: "ordered_registry s" and reg: "Reg G a s = Some (r, s')"
  shows "ordered_registry s'"
proof -
  from ok have lt: "\<forall>p\<in>set (apiHandlers s). p < allocated s"
    and srt: "sorted (map (Id' s) (apiHandlers s))"
    by (simp_all add: ordered_registry_def)
  have new: "ordered_registry (s\<lparr>allocated := Suc (allocated s),
      objects := (objects s)(allocated s := x)\<rparr>)" (is "ordered_registry ?t") for x
  proof -
    have e: "map (Id' ?t) (apiHandlers s) = map (Id' s) (apiHandlers s)"
      by (rule Id'_new_object [OF lt])
    have l: "apiHandlers ?t = apiHandlers s" by simp
    have "sorted (map (Id' ?t) (apiHandlers ?t))"
      unfolding l e by (rule srt)
    moreover have "\<forall>a\<in>set (apiHandlers ?t). a < allocated ?t"
      using lt by (auto simp: less_Suc_eq)
    ultimately show ?thesis by (simp only: ordered_registry_def simp_thms)
  qed
  show ?thesis
  proof (cases "inited a")
    case True
    with reg new [of a] show ?thesis by (auto simp: Reg_inited registry_updates_swap)
  next
    case False
    from Reg_fresh [OF False, of G s] obtain ms where ms: "Reg G a s =
     (let s' = s\<lparr>allocated := Suc (allocated s),
                  objects := (objects s)(allocated s := initialised a ms)\<rparr>
      in case apiHandlerMap s (registered_id a) of
           Some h \<Rightarrow> Some (Some h, s')
         | None \<Rightarrow> Some (Some (allocated s), setApiHandler (allocated s) s'))"
      by blast
    let ?t = "s\<lparr>allocated := Suc (allocated s),
                  objects := (objects s)(allocated s := initialised a ms)\<rparr>"
    have t: "ordered_registry ?t" by (rule new)
    show ?thesis
    proof (cases "apiHandlerMap s (registered_id a)")
      case (Some h)
      with ms reg t show ?thesis by (auto simp: Let_def)
    next
      case None
      with ms reg have s': "s' = setApiHandler (allocated s) ?t" by (simp add: Let_def)
      have id: "Id' s' = Id' ?t"
        unfolding s' by (simp add: Id'_def setApiHandler_objects fun_eq_iff)
      have al: "allocated s' = allocated ?t"
        unfolding s' by (simp add: setApiHandler_objects)
      have l: "apiHandlers s' =
          takeWhile (\<lambda>h. \<not> Id' ?t (allocated s) < Id' ?t h) (apiHandlers ?t) @
          allocated s # dropWhile (\<lambda>h. \<not> Id' ?t (allocated s) < Id' ?t h) (apiHandlers ?t)"
        unfolding s' by (rule setApiHandler_apiHandlers)
      from t have "sorted (map (Id' ?t) (apiHandlers ?t))"
        by (simp add: ordered_registry_def)
      from sorted_insert_before_greater [OF this, of "allocated s"]
      have "sorted (map (Id' s') (apiHandlers s'))"
        unfolding id l .
      moreover have "\<forall>p\<in>set (apiHandlers s'). p < allocated s'"
        unfolding l al using lt
        by (auto dest!: set_takeWhileD set_dropWhileD simp: less_Suc_eq)
      ultimately show ?thesis by (simp add: ordered_registry_def)
    qed
  qed
qed

text \<open>
  Claim C2. The id \<open>initId\<close> sets is the callback's symbolic identity followed by the
  bracketed suffix, the bracketed description and each type in brackets; in a
  registration of a declaration that is not yet initialised the suffix is the derived
  path suffix and the types are the final, sorted types. The id \<open>handleWareUri\<close>
  returns is the callback's symbolic identity followed by the bracketed prefix and each
  method in brackets, and the id of the descriptor \<open>NewVirtHandler\<close> builds is that of
  the cleaned prefix and the elements of the methods slice: the description, the
  produced types and the parameters have no part in it. The symbolic identity is the
  function's name for a value of kind \<open>Func\<close> and the type's name otherwise.
\<close>

theorem identity_formulas:
  "ApiHandler.id' (initId a) = operation_identity (Handler a) (suffix a) (Desc a) (Types a) \<and>
   handleWareUri hw methods' pre = prefix_identity hw pre methods' \<and>
   (\<not> inited a \<longrightarrow>
      (\<exists>r s'. Reg G a s = Some (r, s') \<and>
         Id' s' (allocated s) =
           operation_identity (Handler a) (path_suffix (Params a)) (Desc a)
             (remdups_adj (sort (declared_or_default a))))) \<and>
   (\<exists>r v'. NewVirtHandler hf raw ms d pr pa v = Some (r, v') \<and>
      VirtHandler.id' (virt_objects v' (virt_allocated v)) =
        prefix_identity hf (clean_prefix raw) (slice_elems (string_arrays v) ms))"
proof -
  have "\<exists>r s'. Reg G a s = Some (r, s') \<and>
         Id' s' (allocated s) =
           operation_identity (Handler a) (path_suffix (Params a)) (Desc a)
             (remdups_adj (sort (declared_or_default a)))" if "\<not> inited a"
  proof -
    from Reg_fresh [OF that, of G s] obtain ms where ms: "Reg G a s =
     (let s' = s\<lparr>allocated := Suc (allocated s),
                  objects := (objects s)(allocated s := initialised a ms)\<rparr>
      in case apiHandlerMap s (registered_id a) of
           Some h \<Rightarrow> Some (Some h, s')
         | None \<Rightarrow> Some (Some (allocated s), setApiHandler (allocated s) s'))"
      by blast
    show ?thesis
      using that
      by (cases "apiHandlerMap s (registered_id a)")
         (simp_all add: ms Let_def Id'_def setApiHandler_objects initialised_def
            registered_id_def final_types_def)
  qed
  moreover have "\<exists>r v'. NewVirtHandler hf raw ms d pr pa v = Some (r, v') \<and>
      VirtHandler.id' (virt_objects v' (virt_allocated v)) =
        prefix_identity hf (clean_prefix raw) (slice_elems (string_arrays v) ms)"
    using NewVirtHandler_call [of hf raw ms d pr pa v] by (auto simp: virt_identity_def)
  ultimately show ?thesis
    by (simp add: initId_eq handleWareUri_eq)
qed

text \<open>
  The declaration \<open>user_by_id\<close> in the empty registry, and a second virtual handler for
  \<open>main.h\<close> on \<open>users/\<close> with another description.
\<close>

theorem identity_formulas_witness:
  "\<not> inited user_by_id \<and>
   (case Reg id user_by_id no_handlers of
      None \<Rightarrow> False
    | Some (r, s') \<Rightarrow> r = Some 0 \<and> Id' s' 0 = ''main.user[/:id][user][GET][POST]'') \<and>
   (case NewVirtHandler (FuncValue ''main.h'') ''users/'' \<lparr>arr = 0, off = 0, len = 2\<rparr> ''other''
           \<lparr>arr = 1, off = 0, len = 1\<rparr> \<lparr>arr = 0, off = 0, len = 1\<rparr> listing of
      None \<Rightarrow> False
    | Some (r, v') \<Rightarrow> r = Some 0 \<and>
        VirtHandler.id' (virt_objects v' 1) = ''main.h[/users][GET][POST]'')"
proof -
  have h: "\<not> inited user_by_id" by (simp add: user_by_id_def blank_def)
  have e1: "operation_identity (Handler user_by_id) (path_suffix (Params user_by_id))
       (Desc user_by_id) (remdups_adj (sort (declared_or_default user_by_id))) =
     ''main.user[/:id][user][GET][POST]''"
    by (simp add: user_by_id_def blank_def operation_identity_def path_suffix_def bracketed_def
          declared_or_default_def zero_Param_def)
  have e2: "prefix_identity (FuncValue ''main.h'') (clean_prefix ''users/'')
       (slice_elems (string_arrays listing) \<lparr>arr = 0, off = 0, len = 2\<rparr>) =
     ''main.h[/users][GET][POST]''"
    by (simp add: prefix_identity_def clean_prefix_def path_Clean_def path_Join_def
          strings_Split.simps(1) slice_elems_def listing_def bracketed_def)
  note t = identity_formulas [of user_by_id undefined undefined undefined id no_handlers
      "FuncValue ''main.h''" "''users/''" "\<lparr>arr = 0, off = 0, len = 2\<rparr>" "''other''"
      "\<lparr>arr = 1, off = 0, len = 1\<rparr>" "\<lparr>arr = 0, off = 0, len = 1\<rparr>" listing]
  from t h obtain r s' where r: "Reg id user_by_id no_handlers = Some (r, s')"
      "Id' s' (allocated no_handlers) = ''main.user[/:id][user][GET][POST]''"
    unfolding e1 by blast
  from t obtain q v' where q: "NewVirtHandler (FuncValue ''main.h'') ''users/''
        \<lparr>arr = 0, off = 0, len = 2\<rparr> ''other'' \<lparr>arr = 1, off = 0, len = 1\<rparr>
        \<lparr>arr = 0, off = 0, len = 1\<rparr> listing = Some (q, v')"
      "VirtHandler.id' (virt_objects v' (virt_allocated listing)) = ''main.h[/users][GET][POST]''"
    unfolding e2 by blast
  have r0: "r = Some 0"
    using r(1) h Reg_call [of id user_by_id no_handlers]
    by (auto simp: no_handlers_def)
  have q0: "q = Some 0"
    using q(1) NewVirtHandler_call [of "FuncValue ''main.h''" "''users/''"
        "\<lparr>arr = 0, off = 0, len = 2\<rparr>" "''other''" "\<lparr>arr = 1, off = 0, len = 1\<rparr>"
        "\<lparr>arr = 0, off = 0, len = 1\<rparr>" listing] e2
    by (auto simp: virt_identity_def listing_def)
  have "allocated no_handlers = 0" "virt_allocated listing = 1"
    by (simp_all add: no_handlers_def listing_def)
  with h r q r0 q0 show ?thesis by simp
qed

text \<open>
  Claim C1. Any number of repeated calls of \<open>Reg\<close> with the same declaration, and of
  \<open>NewVirtHandler\<close> with the same arguments, return: every call returns the same
  pointer, the one the map holds under the derived identity after the calls (for
  \<open>Reg\<close> on a copy of an initialised descriptor, what the map holds under its id);
  and the map is either unchanged or has gained exactly the entry for that identity,
  with the list of descriptors one longer.
\<close>

theorem registration_is_get_or_create:
  "(\<exists>r s'. repeat_call (Reg G a) (Suc n) s = Some (replicate (Suc n) r, s') \<and>
      r = apiHandlerMap s' (registered_id a) \<and> (inited a \<or> r \<noteq> None) \<and>
      (apiHandlerMap s' = apiHandlerMap s \<and> apiHandlers s' = apiHandlers s \<or>
       apiHandlerMap s (registered_id a) = None \<and>
       apiHandlerMap s' = (apiHandlerMap s)(registered_id a \<mapsto> allocated s) \<and>
       length (apiHandlers s') = Suc (length (apiHandlers s)))) \<and>
   (\<exists>r v'. repeat_call (NewVirtHandler hf raw ms d pr pa) (Suc n) v =
             Some (replicate (Suc n) r, v') \<and>
      r = virtHandlerMap v' (virt_identity v hf raw ms) \<and> r \<noteq> None \<and>
      (virtHandlerMap v' = virtHandlerMap v \<and> handlerMap v' = handlerMap v \<or>
       virtHandlerMap v (virt_identity v hf raw ms) = None \<and>
       virtHandlerMap v' = (virtHandlerMap v)(virt_identity v hf raw ms \<mapsto> virt_allocated v) \<and>
       handlerMap v' = (handlerMap v)(virt_identity v hf raw ms \<mapsto> hf)))"
  using Reg_repeated [of G a n s] NewVirtHandler_repeated [of hf raw ms d pr pa n v]
  by (rule conjI)

text \<open>Three calls in a row, for an operation and for a virtual handler that is registered.\<close>

theorem registration_is_get_or_create_witness:
  "(case repeat_call (Reg id user_by_id) 3 no_handlers of
      None \<Rightarrow> False
    | Some (rs, s') \<Rightarrow> rs = [Some 0, Some 0, Some 0] \<and> length (apiHandlers s') = 1 \<and>
        apiHandlerMap s' ''main.user[/:id][user][GET][POST]'' = Some 0) \<and>
   (case repeat_call (NewVirtHandler (FuncValue ''main.h'') ''users/'' \<lparr>arr = 0, off = 0, len = 2\<rparr>
           ''other'' \<lparr>arr = 1, off = 0, len = 1\<rparr> \<lparr>arr = 0, off = 0, len = 1\<rparr>) 3 listing of
      None \<Rightarrow> False
    | Some (rs, v') \<Rightarrow> rs = [Some 0, Some 0, Some 0] \<and> virtHandlerMap v' = virtHandlerMap listing)"
proof -
  have e1: "registered_id user_by_id = ''main.user[/:id][user][GET][POST]''"
    by (simp add: registered_id_def final_types_def user_by_id_def blank_def
          operation_identity_def path_suffix_def bracketed_def declared_or_default_def
          zero_Param_def)
  have e2: "virt_identity listing (FuncValue ''main.h'') ''users/'' \<lparr>arr = 0, off = 0, len = 2\<rparr> =
     ''main.h[/users][GET][POST]''"
    by (simp add: virt_identity_def prefix_identity_def clean_prefix_def path_Clean_def
          path_Join_def strings_Split.simps(1) slice_elems_def listing_def bracketed_def)
  have n3: "Suc 2 = 3" by simp
  note t = registration_is_get_or_create [of id user_by_id 2 no_handlers
      "FuncValue ''main.h''" "''users/''" "\<lparr>arr = 0, off = 0, len = 2\<rparr>" "''other''"
      "\<lparr>arr = 1, off = 0, len = 1\<rparr>" "\<lparr>arr = 0, off = 0, len = 1\<rparr>" listing,
      unfolded e1 e2 n3]
  from t obtain r s' where r: "repeat_call (Reg id user_by_id) 3 no_handlers = Some (replicate 3 r, s')"
     "r = apiHandlerMap s' ''main.user[/:id][user][GET][POST]''"
     "apiHandlerMap s' = apiHandlerMap no_handlers \<and> apiHandlers s' = apiHandlers no_handlers \<or>
       apiHandlerMap no_handlers ''main.user[/:id][user][GET][POST]'' = None \<and>
       apiHandlerMap s' = (apiHandlerMap no_handlers)
          (''main.user[/:id][user][GET][POST]'' \<mapsto> allocated no_handlers) \<and>
       length (apiHandlers s') = Suc (length (apiHandlers no_handlers))"
     "inited user_by_id \<or> r \<noteq> None"
    by blast
  from t obtain q v' where q: "repeat_call (NewVirtHandler (FuncValue ''main.h'') ''users/''
        \<lparr>arr = 0, off = 0, len = 2\<rparr> ''other'' \<lparr>arr = 1, off = 0, len = 1\<rparr>
        \<lparr>arr = 0, off = 0, len = 1\<rparr>) 3 listing = Some (replicate 3 q, v')"
     "q = virtHandlerMap v' ''main.h[/users][GET][POST]''"
     "virtHandlerMap v' = virtHandlerMap listing \<and> handlerMap v' = handlerMap listing \<or>
       virtHandlerMap listing ''main.h[/users][GET][POST]'' = None \<and>
       virtHandlerMap v' = (virtHandlerMap listing)
          (''main.h[/users][GET][POST]'' \<mapsto> virt_allocated listing) \<and>
       handlerMap v' = (handlerMap listing)(''main.h[/users][GET][POST]'' \<mapsto> FuncValue ''main.h'')"
    by blast
  have ni: "\<not> inited user_by_id" by (simp add: user_by_id_def blank_def)
  have a: "r = Some 0 \<and> length (apiHandlers s') = 1 \<and>
      apiHandlerMap s' ''main.user[/:id][user][GET][POST]'' = Some 0"
    using r(2,3,4) ni by (auto simp: no_handlers_def)
  have b: "q = Some 0 \<and> virtHandlerMap v' = virtHandlerMap listing"
    using q(2,3) by (auto simp: listing_def)
  have "replicate 3 x = [x, x, x]" for x :: "addr option"
    by (simp add: numeral_3_eq_3)
  with r(1) q(1) a b show ?thesis by simp
qed

subsection \<open>Concurrent registration\<close>

lemma Reg_two_steps:
  "Reg G a s =
     (case reg_step G (Calling a) s of
        (Returned r, s1) \<Rightarrow> Some (r, s1)
      | (Storing p, s1) \<Rightarrow>
          (case reg_step G (Storing p) s1 of
             (Returned r, s2) \<Rightarrow> Some (r, s2)
           | _ \<Rightarrow> None)
      | _ \<Rightarrow> None)"
  by (simp add: Reg_def init_def reg_step_def Reg_lookup_def Let_def
        split: option.splits)

text \<open>
  Claim C9 says that any number of concurrent callers that register the same
  declaration leave exactly one stored instance, without duplicates in the map or in
  the ordered list. Two callers, with the schedule in which both take their first step
  (both lookups find nothing) before either takes its second: both store. The callers
  return different instances, the list holds both under one id, and the map holds the
  second. With the schedule in which the first caller finishes before the second
  starts, one instance is stored and both return it.
\<close>

theorem concurrent_Reg_stores_twice:
  "(case run_schedule id [0, 1, 0, 1] [Calling user_by_id, Calling user_by_id] no_handlers of
      (cs, s) \<Rightarrow>
        cs = [Returned (Some 0), Returned (Some 1)] \<and> apiHandlers s = [0, 1] \<and>
        Id' s 0 = ''main.user[/:id][user][GET][POST]'' \<and>
        Id' s 1 = ''main.user[/:id][user][GET][POST]'' \<and>
        apiHandlerMap s ''main.user[/:id][user][GET][POST]'' = Some 1) \<and>
   (case run_schedule id [0, 0, 1, 1] [Calling user_by_id, Calling user_by_id] no_handlers of
      (cs, s) \<Rightarrow>
        cs = [Returned (Some 0), Returned (Some 0)] \<and> apiHandlers s = [0] \<and>
        apiHandlerMap s ''main.user[/:id][user][GET][POST]'' = Some 0)"
  by (simp add: reg_step_def Reg_lookup_def user_by_id_def blank_def no_handlers_def
        initTypes_def initTypes_loop.simps initParamsAndSuffix_def initParamsAndSuffix_loop.simps
        initId_def zero_Param_def getApiHandler_def Id'_def setApiHandler_def
        setApiHandler_loop.simps Let_def)


subsection \<open>The dispatch cycle\<close>

lemma Get_eq: "Get ch p = (acquired ch p, snd (Get ch p))"
  by (simp add: acquired_def)

lemma Get_takes_out:
  assumes "pool_ok p"
  shows "\<not> holds (snd (Get ch p)) (acquired ch p)"
proof -
  let ?held = "filter (\<lambda>x. x \<notin> set (dropped ch)) (idle p)"
  have d: "distinct ?held" using assms by (simp add: pool_ok_def)
  have m: "made p \<notin> set ?held" using assms by (auto simp: pool_ok_def)
  show ?thesis
  proof (cases "pick ch")
    case None
    with m show ?thesis by (simp add: Get_def acquired_def holds_def Let_def)
  next
    case (Some x)
    show ?thesis
    proof (cases "x \<in> set ?held")
      case True
      then have "Get ch p = (x, p\<lparr>idle := remove1 x ?held\<rparr>)"
        using Some by (simp add: Get_def Let_def)
      then show ?thesis
        using d by (simp add: acquired_def holds_def)
    next
      case False
      then have "Get ch p = (made p, p\<lparr>idle := ?held, made := Suc (made p)\<rparr>)"
        using Some by (auto simp: Get_def Let_def)
      then show ?thesis
        using m by (simp add: acquired_def holds_def)
    qed
  qed
qed

lemma Get_keeps_order:
  assumes "pool_ok p"
  shows "pool_ok (snd (Get ch p)) \<and> acquired ch p < made (snd (Get ch p))"
proof -
  let ?held = "filter (\<lambda>x. x \<notin> set (dropped ch)) (idle p)"
  have d: "distinct ?held" using assms by (simp add: pool_ok_def)
  have b: "\<forall>x\<in>set ?held. x < made p" using assms by (simp add: pool_ok_def)
  show ?thesis
  proof (cases "pick ch")
    case None
    with d b show ?thesis
      by (auto simp: Get_def acquired_def pool_ok_def Let_def less_Suc_eq)
  next
    case (Some x)
    show ?thesis
    proof (cases "x \<in> set ?held")
      case True
      then have "Get ch p = (x, p\<lparr>idle := remove1 x ?held\<rparr>)"
        using Some by (simp add: Get_def Let_def)
      then show ?thesis
        using d b True by (auto simp: acquired_def pool_ok_def)
    next
      case False
      then have "Get ch p = (made p, p\<lparr>idle := ?held, made := Suc (made p)\<rparr>)"
        using Some by (auto simp: Get_def Let_def)
      then show ?thesis
        using d b by (auto simp: acquired_def pool_ok_def less_Suc_eq)
    qed
  qed
qed

lemma Get_released:
  assumes "pool_ok p"
  shows "released (acquired ch p) (snd (Get ch p)) (Put (acquired ch p) (snd (Get ch p)))"
  using Get_takes_out [OF assms, of ch] by (simp add: released_def holds_def Put_def)

lemma Put_keeps_order:
  assumes "pool_ok p"
  shows "pool_ok (Put (acquired ch p) (snd (Get ch p)))"
  using Get_takes_out [OF assms, of ch] Get_keeps_order [OF assms, of ch]
  by (simp add: pool_ok_def Put_def holds_def)

lemma ServeHTTP_eq:
  "ServeHTTP W ch handler p c w =
     (case handler (acquired (request_choice ch) (request p))
             (acquired (response_choice ch) (response p)) (handler_world W ch p c w) of
        None \<Rightarrow>
          Panics \<lparr>request = snd (Get (request_choice ch) (request p)),
                  response = snd (Get (response_choice ch) (response p)),
                  requestHeader = snd (Get (requestHeader_choice ch) (requestHeader p)),
                  responseHeader = snd (Get (responseHeader_choice ch) (responseHeader p)),
                  url = snd (Get (url_choice ch) (url p))\<rparr>
      | Some w' \<Rightarrow>
          Returns
            \<lparr>request = snd (Get (request_choice ch) (request p)),
             response = snd (Get (response_choice ch) (response p)),
             requestHeader = snd (Get (requestHeader_choice ch) (requestHeader p)),
             responseHeader = snd (Get (responseHeader_choice ch) (responseHeader p)),
             url = snd (Get (url_choice ch) (url p))\<rparr>
            \<lparr>request = Put (acquired (request_choice ch) (request p))
                         (snd (Get (request_choice ch) (request p))),
             response = Put (acquired (response_choice ch) (response p))
                          (snd (Get (response_choice ch) (response p))),
             requestHeader = Put (acquired (requestHeader_choice ch) (requestHeader p))
                               (snd (Get (requestHeader_choice ch) (requestHeader p))),
             responseHeader = Put (acquired (responseHeader_choice ch) (responseHeader p))
                                (snd (Get (responseHeader_choice ch) (responseHeader p))),
             url = Put (acquired (url_choice ch) (url p))
                     (snd (Get (url_choice ch) (url p)))\<rparr> w')"
  by (simp add: ServeHTTP_def acquired_def handler_world_def Let_def case_prod_beta
        split: option.splits)

text \<open>
  When the handler panics nothing is laid back: the panic leaves the pools as they are
  at the call of the handler, without the five instances.
\<close>

lemma ServeHTTP_panic:
  assumes "handler (acquired (request_choice ch) (request p))
             (acquired (response_choice ch) (response p)) (handler_world W ch p c w) = None"
  shows "ServeHTTP W ch handler p c w =
     Panics \<lparr>request = snd (Get (request_choice ch) (request p)),
             response = snd (Get (response_choice ch) (response p)),
             requestHeader = snd (Get (requestHeader_choice ch) (requestHeader p)),
             responseHeader = snd (Get (responseHeader_choice ch) (responseHeader p)),
             url = snd (Get (url_choice ch) (url p))\<rparr>"
  using assms by (simp add: ServeHTTP_eq)

text \<open>Pools in order stay in order over a dispatch cycle that returns.\<close>

lemma ServeHTTP_keeps_order:
  assumes "pools_ok p" and "ServeHTTP W ch handler p c w = Returns called returned w'"
  shows "pools_ok returned"
  using assms
  by (auto simp: ServeHTTP_eq pools_ok_def Put_keeps_order split: option.splits)

text \<open>
  Claim C7. Let the five pools be in order, let each pool hand out at \<open>Get\<close> whatever
  it chooses, and let the invocation of the handler return, with whatever world it
  leaves (so whether or not it signalled an application-level error). Then
  \<open>ServeHTTP\<close> returns, and for each of the five pools: the instance and the pool at
  the call of the handler are what \<open>Get\<close> gave, the instance is out of the pool at the
  call, and the pool at the return is the pool at the call with that instance laid
  back, so that it holds the instance.
\<close>

theorem ServeHTTP_releases:
  assumes "pools_ok p"
    and "handler (acquired (request_choice ch) (request p))
           (acquired (response_choice ch) (response p)) (handler_world W ch p c w) = Some w'"
  shows "\<exists>called returned. ServeHTTP W ch handler p c w = Returns called returned w' \<and>
     Get (request_choice ch) (request p)
       = (acquired (request_choice ch) (request p), request called) \<and>
     released (acquired (request_choice ch) (request p)) (request called) (request returned) \<and>
     Get (requestHeader_choice ch) (requestHeader p)
       = (acquired (requestHeader_choice ch) (requestHeader p), requestHeader called) \<and>
     released (acquired (requestHeader_choice ch) (requestHeader p))
       (requestHeader called) (requestHeader returned) \<and>
     Get (url_choice ch) (url p) = (acquired (url_choice ch) (url p), url called) \<and>
     released (acquired (url_choice ch) (url p)) (url called) (url returned) \<and>
     Get (response_choice ch) (response p)
       = (acquired (response_choice ch) (response p), response called) \<and>
     released (acquired (response_choice ch) (response p)) (response called) (response returned) \<and>
     Get (responseHeader_choice ch) (responseHeader p)
       = (acquired (responseHeader_choice ch) (responseHeader p), responseHeader called) \<and>
     released (acquired (responseHeader_choice ch) (responseHeader p))
       (responseHeader called) (responseHeader returned)"
proof -
  from assms(1) have ok: "pool_ok (request p)" "pool_ok (requestHeader p)" "pool_ok (url p)"
      "pool_ok (response p)" "pool_ok (responseHeader p)"
    by (simp_all add: pools_ok_def)
  show ?thesis
    using assms(2) Get_released [OF ok(1)] Get_released [OF ok(2)] Get_released [OF ok(3)]
      Get_released [OF ok(4)] Get_released [OF ok(5)]
    by (simp add: ServeHTTP_eq Get_eq [symmetric])
qed

text \<open>
  A dispatch whose handler reports the error 500. The request-header pool hands out
  the instance that was put first, the response-header pool calls \<open>New\<close> although an
  instance lies idle, and the URL pool has dropped its instance.
\<close>

theorem ServeHTTP_releases_witness:
  "pools_ok warm_pool \<and>
   failing_handler (acquired (request_choice some_choices) (request warm_pool))
     (acquired (response_choice some_choices) (response warm_pool))
     (handler_world plain_wrappers some_choices warm_pool () 0) = Some 500 \<and>
   ServeHTTP plain_wrappers some_choices failing_handler warm_pool () 0 =
     Returns
       \<lparr>request = \<lparr>idle = [], made = 1\<rparr>, response = \<lparr>idle = [], made = 1\<rparr>,
        requestHeader = \<lparr>idle = [1], made = 2\<rparr>,
        responseHeader = \<lparr>idle = [2], made = 4\<rparr>,
        url = \<lparr>idle = [], made = 2\<rparr>\<rparr>
       \<lparr>request = \<lparr>idle = [0], made = 1\<rparr>, response = \<lparr>idle = [0], made = 1\<rparr>,
        requestHeader = \<lparr>idle = [0, 1], made = 2\<rparr>,
        responseHeader = \<lparr>idle = [3, 2], made = 4\<rparr>,
        url = \<lparr>idle = [1], made = 2\<rparr>\<rparr> 500"
proof -
  have ok: "pools_ok warm_pool"
    by (simp add: pools_ok_def pool_ok_def warm_pool_def)
  have h: "failing_handler (acquired (request_choice some_choices) (request warm_pool))
     (acquired (response_choice some_choices) (response warm_pool))
     (handler_world plain_wrappers some_choices warm_pool () 0) = Some 500"
    by (simp add: failing_handler_def)
  have g: "Get (request_choice some_choices) (request warm_pool) = (0, \<lparr>idle = [], made = 1\<rparr>)"
      "Get (requestHeader_choice some_choices) (requestHeader warm_pool) = (0, \<lparr>idle = [1], made = 2\<rparr>)"
      "Get (url_choice some_choices) (url warm_pool) = (1, \<lparr>idle = [], made = 2\<rparr>)"
      "Get (response_choice some_choices) (response warm_pool) = (0, \<lparr>idle = [], made = 1\<rparr>)"
      "Get (responseHeader_choice some_choices) (responseHeader warm_pool) = (3, \<lparr>idle = [2], made = 4\<rparr>)"
    by (simp_all add: Get_def warm_pool_def some_choices_def)
  from ServeHTTP_releases [of warm_pool failing_handler some_choices plain_wrappers "()" 0 500,
      OF ok h]
  obtain called returned where r:
      "ServeHTTP plain_wrappers some_choices failing_handler warm_pool () 0 =
         Returns called returned 500"
      "request called = \<lparr>idle = [], made = 1\<rparr>" "request returned = Put 0 (request called)"
      "requestHeader called = \<lparr>idle = [1], made = 2\<rparr>"
      "requestHeader returned = Put 0 (requestHeader called)"
      "url called = \<lparr>idle = [], made = 2\<rparr>" "url returned = Put 1 (url called)"
      "response called = \<lparr>idle = [], made = 1\<rparr>" "response returned = Put 0 (response called)"
      "responseHeader called = \<lparr>idle = [2], made = 4\<rparr>"
      "responseHeader returned = Put 3 (responseHeader called)"
    unfolding g released_def by auto
  have "called = \<lparr>request = \<lparr>idle = [], made = 1\<rparr>, response = \<lparr>idle = [], made = 1\<rparr>,
        requestHeader = \<lparr>idle = [1], made = 2\<rparr>,
        responseHeader = \<lparr>idle = [2], made = 4\<rparr>,
        url = \<lparr>idle = [], made = 2\<rparr>\<rparr>"
    using r by (cases called) simp
  moreover have "returned = \<lparr>request = \<lparr>idle = [0], made = 1\<rparr>, response = \<lparr>idle = [0], made = 1\<rparr>,
        requestHeader = \<lparr>idle = [0, 1], made = 2\<rparr>,
        responseHeader = \<lparr>idle = [3, 2], made = 4\<rparr>,
        url = \<lparr>idle = [1], made = 2\<rparr>\<rparr>"
    using r by (cases returned) (simp add: Put_def)
  ultimately show ?thesis using ok h r(1) by simp
qed

end
